theory Spec2Isabelle
  imports Complex_Main
begin

section \<open>Arrays with Python indexing\<close>

text \<open>
  The source indexes NumPy arrays. Positions and node times are float64 values; the
  cursor only compares and copies them, and the accumulator adds and subtracts node
  times. They are modelled as rationals, so rounding and NaN are outside the model.
  The int32 and int64 cells are modelled as unbounded integers: every cell changes by
  one per edge event, so wrap-around needs more than \<open>2^31\<close> events.
  An index outside \<open>[-n, n)\<close> raises \<open>IndexError\<close>; a negative index in
  range counts from the end of the array.
\<close>

datatype error = IndexError

definition py_index :: "nat \<Rightarrow> int \<Rightarrow> nat option" where
  "py_index n i =
     (if 0 \<le> i \<and> i < int n then Some (nat i)
      else if i < 0 \<and> - int n \<le> i then Some (nat (int n + i))
      else None)"

definition getitem :: "'a list \<Rightarrow> int \<Rightarrow> error + 'a" where
  "getitem xs i =
     (case py_index (length xs) i of None \<Rightarrow> Inl IndexError | Some k \<Rightarrow> Inr (xs ! k))"

definition setitem :: "'a list \<Rightarrow> int \<Rightarrow> 'a \<Rightarrow> error + 'a list" where
  "setitem xs i v =
     (case py_index (length xs) i of None \<Rightarrow> Inl IndexError | Some k \<Rightarrow> Inr (xs[k := v]))"

definition ebind :: "error + 'a \<Rightarrow> ('a \<Rightarrow> error + 'b) \<Rightarrow> error + 'b" where
  "ebind m f = (case m of Inl err \<Rightarrow> Inl err | Inr x \<Rightarrow> f x)"

section \<open>The tree-position cursor\<close>

record tree_position =
  num_edges :: int
  sequence_length :: rat
  edges_left :: "rat list"
  edges_right :: "rat list"
  edge_insertion_order :: "int list"
  edge_removal_order :: "int list"
  edge_insertion_index :: int
  edge_removal_index :: int
  interval :: "rat \<times> rat"
  in_range :: "int \<times> int"
  out_range :: "int \<times> int"

text \<open>\<open>TreePosition.__init__\<close>: the three two-element arrays start as zeros.\<close>

definition TreePosition ::
  "int \<Rightarrow> rat \<Rightarrow> rat list \<Rightarrow> rat list \<Rightarrow> int list \<Rightarrow> int list \<Rightarrow> tree_position" where
  "TreePosition M sl el er ins outs =
     \<lparr> num_edges = M, sequence_length = sl, edges_left = el, edges_right = er,
       edge_insertion_order = ins, edge_removal_order = outs,
       edge_insertion_index = 0, edge_removal_index = 0,
       interval = (0, 0), in_range = (0, 0), out_range = (0, 0) \<rparr>"

text \<open>\<open>while k < M and edges_right[out_order[k]] == left: k += 1\<close>\<close>

function out_scan :: "tree_position \<Rightarrow> rat \<Rightarrow> int \<Rightarrow> error + int" where
  "out_scan tp left k =
     (if k < num_edges tp then
        (case getitem (edge_removal_order tp) k of
           Inl err \<Rightarrow> Inl err
         | Inr e \<Rightarrow>
             (case getitem (edges_right tp) e of
                Inl err \<Rightarrow> Inl err
              | Inr r \<Rightarrow> if r = left then out_scan tp left (k + 1) else Inr k))
      else Inr k)"
  by pat_completeness auto
termination
  by (relation "measure (\<lambda>(tp, left, k). nat (num_edges tp - k))") auto

text \<open>\<open>while j < M and edges_left[in_order[j]] == left: j += 1\<close>\<close>

function in_scan :: "tree_position \<Rightarrow> rat \<Rightarrow> int \<Rightarrow> error + int" where
  "in_scan tp left j =
     (if j < num_edges tp then
        (case getitem (edge_insertion_order tp) j of
           Inl err \<Rightarrow> Inl err
         | Inr e \<Rightarrow>
             (case getitem (edges_left tp) e of
                Inl err \<Rightarrow> Inl err
              | Inr l \<Rightarrow> if l = left then in_scan tp left (j + 1) else Inr j))
      else Inr j)"
  by pat_completeness auto
termination
  by (relation "measure (\<lambda>(tp, left, j). nat (num_edges tp - j))") auto

text \<open>
  \<open>TreePosition.next\<close>. The result is the returned boolean and the cursor after the
  call; an \<open>IndexError\<close> raised by a read abandons the call.
\<close>

definition TreePosition_next :: "tree_position \<Rightarrow> error + (bool \<times> tree_position)" where
  "TreePosition_next tp =
     (let left = snd (interval tp);
          j = snd (in_range tp);
          k = snd (out_range tp);
          M = num_edges tp
      in ebind (out_scan tp left k) (\<lambda>k.
         ebind (in_scan tp left j) (\<lambda>j.
         let right = sequence_length tp in
         ebind (if j < M
                then ebind (getitem (edge_insertion_order tp) j) (\<lambda>e.
                     ebind (getitem (edges_left tp) e) (\<lambda>l. Inr (min right l)))
                else Inr right) (\<lambda>right.
         ebind (if k < M
                then ebind (getitem (edge_removal_order tp) k) (\<lambda>e.
                     ebind (getitem (edges_right tp) e) (\<lambda>r. Inr (min right r)))
                else Inr right) (\<lambda>right.
         Inr (j < M \<or> left < sequence_length tp,
              tp\<lparr> in_range := (snd (in_range tp), j),
                  out_range := (snd (out_range tp), k),
                  interval := (left, right) \<rparr>))))))"

section \<open>The per-tree statistics accumulator\<close>

text \<open>
  The local variables of \<open>_compute_per_tree_stats\<close>. The arrays \<open>tbl\<close> and
  \<open>num_internal_nodes\<close> are float64 arrays, \<open>max_arity\<close>, \<open>num_children\<close> and
  \<open>nodes_with_arity\<close> are int32 arrays.
\<close>

record stats_state =
  tbl :: "rat list"
  num_internal_nodes :: "rat list"
  max_arity :: "int list"
  num_children :: "int list"
  nodes_with_arity :: "int list"
  current_tbl :: rat
  tree_index :: int
  current_num_internal_nodes :: int
  current_max_arity :: int

text \<open>The body of the loop over \<open>out_range\<close>, for the position \<open>j\<close> in the removal order.\<close>

definition remove_edge ::
  "tree_position \<Rightarrow> rat list \<Rightarrow> int list \<Rightarrow> int list \<Rightarrow> int \<Rightarrow> stats_state \<Rightarrow> error + stats_state" where
  "remove_edge tp nodes_time edges_parent edges_child j s =
     ebind (getitem (edge_removal_order tp) j) (\<lambda>e.
     ebind (getitem edges_parent e) (\<lambda>p.
     \<comment> \<open>\<open>nodes_with_arity[num_children[p]] -= 1\<close>\<close>
     ebind (getitem (num_children s) p) (\<lambda>a.
     ebind (getitem (nodes_with_arity s) a) (\<lambda>h.
     ebind (setitem (nodes_with_arity s) a (h - 1)) (\<lambda>nwa.
     \<comment> \<open>\<open>if num_children[p] == current_max_arity and nodes_with_arity[num_children[p]] == 1\<close>\<close>
     ebind (getitem nwa a) (\<lambda>h'.
     let cma = (if a = current_max_arity s \<and> h' = 1
                then current_max_arity s - 1 else current_max_arity s) in
     \<comment> \<open>\<open>num_children[p] -= 1\<close>\<close>
     ebind (setitem (num_children s) p (a - 1)) (\<lambda>nc.
     ebind (getitem nc p) (\<lambda>a'.
     ebind (if a' = 0
            then Inr (current_num_internal_nodes s - 1, nwa)
            else ebind (getitem nwa a') (\<lambda>g.
                 ebind (setitem nwa a' (g + 1)) (\<lambda>nwa'.
                 Inr (current_num_internal_nodes s, nwa')))) (\<lambda>(cnin, nwa').
     ebind (getitem edges_child e) (\<lambda>c.
     ebind (getitem nodes_time p) (\<lambda>tp_time.
     ebind (getitem nodes_time c) (\<lambda>tc_time.
     let branch_length = tp_time - tc_time in
     Inr (s\<lparr> num_children := nc, nodes_with_arity := nwa',
             current_max_arity := cma, current_num_internal_nodes := cnin,
             current_tbl := current_tbl s - branch_length \<rparr>)))))))))))))"

text \<open>The body of the loop over \<open>in_range\<close>, for the position \<open>j\<close> in the insertion order.\<close>

definition insert_edge ::
  "tree_position \<Rightarrow> rat list \<Rightarrow> int list \<Rightarrow> int list \<Rightarrow> int \<Rightarrow> stats_state \<Rightarrow> error + stats_state" where
  "insert_edge tp nodes_time edges_parent edges_child j s =
     ebind (getitem (edge_insertion_order tp) j) (\<lambda>e.
     ebind (getitem edges_parent e) (\<lambda>p.
     ebind (getitem (num_children s) p) (\<lambda>a.
     ebind (if a = 0
            then Inr (current_num_internal_nodes s + 1, nodes_with_arity s)
            else ebind (getitem (nodes_with_arity s) a) (\<lambda>h.
                 ebind (setitem (nodes_with_arity s) a (h - 1)) (\<lambda>nwa.
                 Inr (current_num_internal_nodes s, nwa)))) (\<lambda>(cnin, nwa).
     \<comment> \<open>\<open>num_children[p] += 1\<close>\<close>
     ebind (setitem (num_children s) p (a + 1)) (\<lambda>nc.
     \<comment> \<open>\<open>nodes_with_arity[num_children[p]] += 1\<close>\<close>
     ebind (getitem nc p) (\<lambda>a'.
     ebind (getitem nwa a') (\<lambda>g.
     ebind (setitem nwa a' (g + 1)) (\<lambda>nwa'.
     let cma = (if a' > current_max_arity s then a' else current_max_arity s) in
     ebind (getitem edges_child e) (\<lambda>c.
     ebind (getitem nodes_time p) (\<lambda>tp_time.
     ebind (getitem nodes_time c) (\<lambda>tc_time.
     let branch_length = tp_time - tc_time in
     Inr (s\<lparr> num_children := nc, nodes_with_arity := nwa',
             current_max_arity := cma, current_num_internal_nodes := cnin,
             current_tbl := current_tbl s + branch_length \<rparr>))))))))))))"

text \<open>The two \<open>for j in range(a, b)\<close> loops, over the list of positions \<open>[a..b - 1]\<close>.\<close>

fun remove_edges ::
  "tree_position \<Rightarrow> rat list \<Rightarrow> int list \<Rightarrow> int list \<Rightarrow> int list \<Rightarrow> stats_state \<Rightarrow> error + stats_state" where
  "remove_edges tp nodes_time edges_parent edges_child [] s = Inr s"
| "remove_edges tp nodes_time edges_parent edges_child (j # js) s =
     (case remove_edge tp nodes_time edges_parent edges_child j s of
        Inl err \<Rightarrow> Inl err
      | Inr s' \<Rightarrow> remove_edges tp nodes_time edges_parent edges_child js s')"

fun insert_edges ::
  "tree_position \<Rightarrow> rat list \<Rightarrow> int list \<Rightarrow> int list \<Rightarrow> int list \<Rightarrow> stats_state \<Rightarrow> error + stats_state" where
  "insert_edges tp nodes_time edges_parent edges_child [] s = Inr s"
| "insert_edges tp nodes_time edges_parent edges_child (j # js) s =
     (case insert_edge tp nodes_time edges_parent edges_child j s of
        Inl err \<Rightarrow> Inl err
      | Inr s' \<Rightarrow> insert_edges tp nodes_time edges_parent edges_child js s')"

text \<open>The three stores and the increment that end the body of the \<open>while\<close> loop.\<close>

definition emit :: "stats_state \<Rightarrow> error + stats_state" where
  "emit s =
     ebind (setitem (tbl s) (tree_index s) (current_tbl s)) (\<lambda>t.
     ebind (setitem (num_internal_nodes s) (tree_index s)
              (of_int (current_num_internal_nodes s))) (\<lambda>n.
     ebind (setitem (max_arity s) (tree_index s) (current_max_arity s)) (\<lambda>m.
     Inr (s\<lparr> tbl := t, num_internal_nodes := n, max_arity := m,
             tree_index := tree_index s + 1 \<rparr>))))"

text \<open>
  One round of \<open>while tree_pos.next(): ...\<close>: \<open>None\<close> when \<open>next\<close> returns false,
  otherwise the cursor and the locals after the body.
\<close>

definition loop_body ::
  "rat list \<Rightarrow> int list \<Rightarrow> int list \<Rightarrow> tree_position \<times> stats_state \<Rightarrow>
   error + (tree_position \<times> stats_state) option" where
  "loop_body nodes_time edges_parent edges_child ts =
     ebind (TreePosition_next (fst ts)) (\<lambda>(b, tp).
     if b then
       ebind (remove_edges tp nodes_time edges_parent edges_child
                [fst (out_range tp) .. snd (out_range tp) - 1] (snd ts)) (\<lambda>s1.
       ebind (insert_edges tp nodes_time edges_parent edges_child
                [fst (in_range tp) .. snd (in_range tp) - 1] s1) (\<lambda>s2.
       ebind (emit s2) (\<lambda>s3. Inr (Some (tp, s3)))))
     else Inr None)"

text \<open>The body leaves the output arrays at their length and moves \<open>tree_index\<close> up by one.\<close>

lemma ebind_Inr: "ebind m f = Inr y \<longleftrightarrow> (\<exists>x. m = Inr x \<and> f x = Inr y)"
  by (cases m) (simp_all add: ebind_def)

lemma setitem_length: "setitem xs i v = Inr ys \<Longrightarrow> length ys = length xs"
  by (auto simp: setitem_def split: option.splits)

lemma setitem_range:
  "setitem xs i v = Inr ys \<Longrightarrow> - int (length xs) \<le> i \<and> i < int (length xs)"
  by (auto simp: setitem_def py_index_def split: option.splits if_splits)

lemma remove_edge_outputs:
  "remove_edge tp nt ep ec j s = Inr s' \<Longrightarrow>
     tbl s' = tbl s \<and> num_internal_nodes s' = num_internal_nodes s \<and>
     max_arity s' = max_arity s \<and> tree_index s' = tree_index s"
  by (auto simp: remove_edge_def ebind_Inr Let_def split: prod.splits)

lemma insert_edge_outputs:
  "insert_edge tp nt ep ec j s = Inr s' \<Longrightarrow>
     tbl s' = tbl s \<and> num_internal_nodes s' = num_internal_nodes s \<and>
     max_arity s' = max_arity s \<and> tree_index s' = tree_index s"
  by (auto simp: insert_edge_def ebind_Inr Let_def split: prod.splits)

lemma remove_edges_outputs:
  "remove_edges tp nt ep ec js s = Inr s' \<Longrightarrow>
     tbl s' = tbl s \<and> num_internal_nodes s' = num_internal_nodes s \<and>
     max_arity s' = max_arity s \<and> tree_index s' = tree_index s"
proof (induction js arbitrary: s)
  case Nil
  then show ?case by simp
next
  case (Cons j js)
  from Cons.prems obtain s1 where
    a: "remove_edge tp nt ep ec j s = Inr s1" and b: "remove_edges tp nt ep ec js s1 = Inr s'"
    by (auto split: sum.splits)
  from remove_edge_outputs [OF a] Cons.IH [OF b] show ?case by simp
qed

lemma insert_edges_outputs:
  "insert_edges tp nt ep ec js s = Inr s' \<Longrightarrow>
     tbl s' = tbl s \<and> num_internal_nodes s' = num_internal_nodes s \<and>
     max_arity s' = max_arity s \<and> tree_index s' = tree_index s"
proof (induction js arbitrary: s)
  case Nil
  then show ?case by simp
next
  case (Cons j js)
  from Cons.prems obtain s1 where
    a: "insert_edge tp nt ep ec j s = Inr s1" and b: "insert_edges tp nt ep ec js s1 = Inr s'"
    by (auto split: sum.splits)
  from insert_edge_outputs [OF a] Cons.IH [OF b] show ?case by simp
qed

lemma emit_outputs:
  "emit s = Inr s' \<Longrightarrow>
     length (tbl s') = length (tbl s) \<and> tree_index s' = tree_index s + 1 \<and>
     tree_index s < int (length (tbl s))"
  by (auto simp: emit_def ebind_Inr dest: setitem_length setitem_range)

lemma loop_body_measure:
  assumes "loop_body nt ep ec ts = Inr (Some ts')"
  shows "nat (int (length (tbl (snd ts'))) - tree_index (snd ts'))
           < nat (int (length (tbl (snd ts))) - tree_index (snd ts))"
proof -
  from assms obtain b tp where n: "TreePosition_next (fst ts) = Inr (b, tp)"
    and r: "(if b then
       ebind (remove_edges tp nt ep ec [fst (out_range tp) .. snd (out_range tp) - 1] (snd ts)) (\<lambda>s1.
       ebind (insert_edges tp nt ep ec [fst (in_range tp) .. snd (in_range tp) - 1] s1) (\<lambda>s2.
       ebind (emit s2) (\<lambda>s3. Inr (Some (tp, s3)))))
     else Inr None) = Inr (Some ts')"
    by (auto simp: loop_body_def ebind_Inr split: prod.splits)
  from r have b: b by (auto split: if_splits)
  with r obtain s1 s2 s3 where
    1: "remove_edges tp nt ep ec [fst (out_range tp) .. snd (out_range tp) - 1] (snd ts) = Inr s1"
    and 2: "insert_edges tp nt ep ec [fst (in_range tp) .. snd (in_range tp) - 1] s1 = Inr s2"
    and 3: "emit s2 = Inr s3" and 4: "ts' = (tp, s3)"
    by (auto simp: ebind_Inr)
  from remove_edges_outputs [OF 1] insert_edges_outputs [OF 2] emit_outputs [OF 3] 4
  show ?thesis by simp
qed

text \<open>
  \<open>while tree_pos.next(): ...\<close>. Each round stores at \<open>tree_index\<close> into arrays of
  length \<open>num_trees\<close>, so the loop ends by \<open>next\<close> returning false or by an
  \<open>IndexError\<close>. The result is the locals when the loop ends.
\<close>

function stats_loop ::
  "rat list \<Rightarrow> int list \<Rightarrow> int list \<Rightarrow> tree_position \<times> stats_state \<Rightarrow> error + stats_state" where
  "stats_loop nodes_time edges_parent edges_child ts =
     (case loop_body nodes_time edges_parent edges_child ts of
        Inl err \<Rightarrow> Inl err
      | Inr None \<Rightarrow> Inr (snd ts)
      | Inr (Some ts') \<Rightarrow> stats_loop nodes_time edges_parent edges_child ts')"
  by pat_completeness auto
termination
  by (relation "measure (\<lambda>(nt, ep, ec, ts). nat (int (length (tbl (snd ts))) - tree_index (snd ts)))")
     (auto dest: loop_body_measure)

text \<open>The locals before the loop: \<open>np.zeros\<close> arrays and zero counters.\<close>

definition init_state :: "nat \<Rightarrow> nat \<Rightarrow> stats_state" where
  "init_state num_trees num_nodes =
     \<lparr> tbl = replicate num_trees 0, num_internal_nodes = replicate num_trees 0,
       max_arity = replicate num_trees 0, num_children = replicate num_nodes 0,
       nodes_with_arity = replicate num_nodes 0, current_tbl = 0, tree_index = 0,
       current_num_internal_nodes = 0, current_max_arity = 0 \<rparr>"

definition njit_compute_per_tree_stats ::
  "tree_position \<Rightarrow> nat \<Rightarrow> nat \<Rightarrow> rat list \<Rightarrow> int list \<Rightarrow> int list \<Rightarrow>
   error + (rat list \<times> rat list \<times> int list)" where
  "njit_compute_per_tree_stats tree_pos num_trees num_nodes nodes_time edges_parent edges_child =
     ebind (stats_loop nodes_time edges_parent edges_child
              (tree_pos, init_state num_trees num_nodes)) (\<lambda>s.
     Inr (tbl s, num_internal_nodes s, max_arity s))"

text \<open>The fields of a tskit tree sequence that the cursor and the accumulator read.\<close>

record tree_sequence =
  ts_num_edges :: nat
  ts_sequence_length :: rat
  ts_edges_left :: "rat list"
  ts_edges_right :: "rat list"
  ts_edges_parent :: "int list"
  ts_edges_child :: "int list"
  ts_indexes_edge_insertion_order :: "int list"
  ts_indexes_edge_removal_order :: "int list"
  ts_num_trees :: nat
  ts_num_nodes :: nat
  ts_nodes_time :: "rat list"

definition alloc_tree_position :: "tree_sequence \<Rightarrow> tree_position" where
  "alloc_tree_position ts =
     TreePosition (int (ts_num_edges ts)) (ts_sequence_length ts) (ts_edges_left ts)
       (ts_edges_right ts) (ts_indexes_edge_insertion_order ts)
       (ts_indexes_edge_removal_order ts)"

definition compute_per_tree_stats ::
  "tree_sequence \<Rightarrow> error + (rat list \<times> rat list \<times> int list)" where
  "compute_per_tree_stats ts =
     njit_compute_per_tree_stats (alloc_tree_position ts) (ts_num_trees ts) (ts_num_nodes ts)
       (ts_nodes_time ts) (ts_edges_parent ts) (ts_edges_child ts)"

section \<open>Example tables\<close>

text \<open>One edge over the whole genome, from node 1 (time 5) to node 0 (time 2).\<close>

definition single_edge_table :: tree_sequence where
  "single_edge_table =
     \<lparr> ts_num_edges = 1, ts_sequence_length = 7, ts_edges_left = [0],
       ts_edges_right = [7], ts_edges_parent = [1], ts_edges_child = [0],
       ts_indexes_edge_insertion_order = [0], ts_indexes_edge_removal_order = [0],
       ts_num_trees = 1, ts_num_nodes = 2, ts_nodes_time = [2, 5] \<rparr>"

text \<open>
  Node 3 has three children over \<open>[0, 1)\<close>, two over \<open>[1, 2)\<close> and one over
  \<open>[2, 3)\<close>.
\<close>

definition three_children_table :: tree_sequence where
  "three_children_table =
     \<lparr> ts_num_edges = 3, ts_sequence_length = 3, ts_edges_left = [0, 0, 0],
       ts_edges_right = [3, 2, 1], ts_edges_parent = [3, 3, 3], ts_edges_child = [0, 1, 2],
       ts_indexes_edge_insertion_order = [0, 1, 2],
       ts_indexes_edge_removal_order = [2, 1, 0],
       ts_num_trees = 3, ts_num_nodes = 4, ts_nodes_time = [0, 0, 0, 1] \<rparr>"

text \<open>
  Nodes 4 and 5 have two children each over \<open>[0, 1)\<close>; over \<open>[1, 2)\<close> node 4 has
  one child and node 5 still has two.
\<close>

definition two_parents_table :: tree_sequence where
  "two_parents_table =
     \<lparr> ts_num_edges = 4, ts_sequence_length = 2, ts_edges_left = [0, 0, 0, 0],
       ts_edges_right = [2, 1, 2, 2], ts_edges_parent = [4, 4, 5, 5],
       ts_edges_child = [0, 1, 2, 3],
       ts_indexes_edge_insertion_order = [0, 1, 2, 3],
       ts_indexes_edge_removal_order = [1, 0, 2, 3],
       ts_num_trees = 2, ts_num_nodes = 6, ts_nodes_time = [0, 0, 0, 0, 1, 1] \<rparr>"

text \<open>Two edges sharing a child with overlapping intervals, both from node 1 to node 0.\<close>

definition duplicate_edge_table :: tree_sequence where
  "duplicate_edge_table =
     \<lparr> ts_num_edges = 2, ts_sequence_length = 1, ts_edges_left = [0, 0],
       ts_edges_right = [1, 1], ts_edges_parent = [1, 1], ts_edges_child = [0, 0],
       ts_indexes_edge_insertion_order = [0, 1], ts_indexes_edge_removal_order = [0, 1],
       ts_num_trees = 1, ts_num_nodes = 2, ts_nodes_time = [0, 1] \<rparr>"

section \<open>Reference definitions taken from the specification\<close>

text \<open>
  The boundaries that are candidates for the right end of the next interval: the key of
  the edge at position \<open>i\<close> of an order, if that position is below \<open>M\<close>.
\<close>

definition pending :: "rat list \<Rightarrow> int list \<Rightarrow> int \<Rightarrow> int \<Rightarrow> rat list" where
  "pending key order M i =
     (if i < M
      then (case ebind (getitem order i) (getitem key) of Inr x \<Rightarrow> [x] | Inl err \<Rightarrow> [])
      else [])"

text \<open>
  The minimum of \<open>sequence_length\<close>, the left end of the next edge to insert and the
  right end of the next edge to remove, for the cursors \<open>j\<close> and \<open>k\<close>.
\<close>

definition minimum_boundary :: "tree_position \<Rightarrow> int \<Rightarrow> int \<Rightarrow> rat" where
  "minimum_boundary tp j k =
     Min (set (sequence_length tp #
               pending (edges_left tp) (edge_insertion_order tp) (num_edges tp) j @
               pending (edges_right tp) (edge_removal_order tp) (num_edges tp) k))"

text \<open>
  The local tree at position \<open>x\<close>, rebuilt by scanning every edge interval, the
  out-degree of a node in it, and the largest out-degree.
\<close>

definition local_tree_edges :: "tree_sequence \<Rightarrow> rat \<Rightarrow> nat list" where
  "local_tree_edges ts x =
     filter (\<lambda>e. ts_edges_left ts ! e \<le> x \<and> x < ts_edges_right ts ! e) [0..<ts_num_edges ts]"

definition out_degree :: "tree_sequence \<Rightarrow> rat \<Rightarrow> nat \<Rightarrow> nat" where
  "out_degree ts x n =
     length (filter (\<lambda>e. ts_edges_parent ts ! e = int n) (local_tree_edges ts x))"

definition brute_force_max_arity :: "tree_sequence \<Rightarrow> rat \<Rightarrow> int" where
  "brute_force_max_arity ts x =
     int (fold max (map (out_degree ts x) [0..<ts_num_nodes ts]) 0)"

text \<open>Intervals that tile \<open>[a, b)\<close>: each starts where the one before ends and is not empty.\<close>

fun tiling :: "rat \<Rightarrow> rat \<Rightarrow> (rat \<times> rat) list \<Rightarrow> bool" where
  "tiling a b [] \<longleftrightarrow> a = b"
| "tiling a b ((l, r) # ivs) \<longleftrightarrow> l = a \<and> l < r \<and> tiling r b ivs"

text \<open>
  The input invariants of the specification: an order is a permutation of the edge
  indices; both orders are sorted by their key; every edge has
  \<open>0 \<le> left < right \<le> sequence_length\<close>; the sequence length is positive.
\<close>

definition valid_order :: "nat \<Rightarrow> int list \<Rightarrow> bool" where
  "valid_order M order \<longleftrightarrow>
     length order = M \<and> distinct order \<and> list_all (\<lambda>e. 0 \<le> e \<and> e < int M) order"

definition well_formed_edges :: "tree_sequence \<Rightarrow> bool" where
  "well_formed_edges ts \<longleftrightarrow>
     length (ts_edges_left ts) = ts_num_edges ts \<and>
     length (ts_edges_right ts) = ts_num_edges ts \<and>
     valid_order (ts_num_edges ts) (ts_indexes_edge_insertion_order ts) \<and>
     valid_order (ts_num_edges ts) (ts_indexes_edge_removal_order ts) \<and>
     sorted (map (\<lambda>e. ts_edges_left ts ! nat e) (ts_indexes_edge_insertion_order ts)) \<and>
     sorted (map (\<lambda>e. ts_edges_right ts ! nat e) (ts_indexes_edge_removal_order ts)) \<and>
     0 < ts_sequence_length ts \<and>
     list_all (\<lambda>e. 0 \<le> ts_edges_left ts ! e \<and> ts_edges_left ts ! e < ts_edges_right ts ! e \<and>
                  ts_edges_right ts ! e \<le> ts_sequence_length ts) [0..<ts_num_edges ts]"

text \<open>
  The node part of the input invariants: every parent and child id is a node, and a
  parent is older than its child.
\<close>

definition well_formed :: "tree_sequence \<Rightarrow> bool" where
  "well_formed ts \<longleftrightarrow>
     well_formed_edges ts \<and>
     length (ts_edges_parent ts) = ts_num_edges ts \<and>
     length (ts_edges_child ts) = ts_num_edges ts \<and>
     length (ts_nodes_time ts) = ts_num_nodes ts \<and>
     list_all (\<lambda>e. 0 \<le> ts_edges_parent ts ! e \<and> ts_edges_parent ts ! e < int (ts_num_nodes ts) \<and>
                  0 \<le> ts_edges_child ts ! e \<and> ts_edges_child ts ! e < int (ts_num_nodes ts) \<and>
                  ts_nodes_time ts ! nat (ts_edges_child ts ! e)
                    < ts_nodes_time ts ! nat (ts_edges_parent ts ! e))
       [0..<ts_num_edges ts]"

text \<open>
  No node is the child of two edges whose intervals overlap: every local tree gives a
  node at most one parent.
\<close>

definition single_parent :: "tree_sequence \<Rightarrow> bool" where
  "single_parent ts \<longleftrightarrow>
     list_all (\<lambda>e1. list_all (\<lambda>e2.
         e1 \<noteq> e2 \<and> ts_edges_child ts ! e1 = ts_edges_child ts ! e2 \<longrightarrow>
           ts_edges_right ts ! e1 \<le> ts_edges_left ts ! e2 \<or>
           ts_edges_right ts ! e2 \<le> ts_edges_left ts ! e1)
       [0..<ts_num_edges ts]) [0..<ts_num_edges ts]"

text \<open>Every out-degree in \<open>num_children\<close> is an index of \<open>nodes_with_arity\<close>.\<close>

definition arities_in_bounds :: "nat \<Rightarrow> stats_state \<Rightarrow> bool" where
  "arities_in_bounds N s \<longleftrightarrow>
     length (num_children s) = N \<and> length (nodes_with_arity s) = N \<and>
     list_all (\<lambda>a. 0 \<le> a \<and> a < int N) (num_children s)"

section \<open>Traversals\<close>

text \<open>
  The calls of \<open>next\<close> up to and including the first one that returns false, with
  the cursor after each call. \<open>None\<close> when the fuel runs out first.
\<close>

fun advance_all :: "nat \<Rightarrow> tree_position \<Rightarrow> (error + tree_position list) option" where
  "advance_all 0 tp = None"
| "advance_all (Suc n) tp =
     (case TreePosition_next tp of
        Inl err \<Rightarrow> Some (Inl err)
      | Inr (b, tp') \<Rightarrow>
          if b then (case advance_all n tp' of
                       None \<Rightarrow> None
                     | Some (Inl err) \<Rightarrow> Some (Inl err)
                     | Some (Inr tps) \<Rightarrow> Some (Inr (tp' # tps)))
          else Some (Inr [tp']))"

text \<open>
  The positions of the insertion order and of the removal order that the ranges of a
  list of cursors cover, in the order of the calls.
\<close>

definition in_positions :: "tree_position list \<Rightarrow> int list" where
  "in_positions tps = concat (map (\<lambda>tp. [fst (in_range tp) .. snd (in_range tp) - 1]) tps)"

definition out_positions :: "tree_position list \<Rightarrow> int list" where
  "out_positions tps = concat (map (\<lambda>tp. [fst (out_range tp) .. snd (out_range tp) - 1]) tps)"

text \<open>
  The cursor and the locals after \<open>n\<close> rounds of the \<open>while\<close> loop, that is at the
  \<open>n\<close>-th emission point; \<open>None\<close> when the loop ends or raises before.
\<close>

fun after_rounds ::
  "rat list \<Rightarrow> int list \<Rightarrow> int list \<Rightarrow> nat \<Rightarrow> tree_position \<times> stats_state \<Rightarrow>
   (tree_position \<times> stats_state) option" where
  "after_rounds nt ep ec 0 st = Some st"
| "after_rounds nt ep ec (Suc n) st =
     (case loop_body nt ep ec st of
        Inr (Some st') \<Rightarrow> after_rounds nt ep ec n st'
      | _ \<Rightarrow> None)"

section \<open>Invariants of the cursor and of the accumulator\<close>

text \<open>The left end of the \<open>i\<close>-th inserted edge and the right end of the \<open>i\<close>-th removed edge.\<close>

definition ins_key :: "tree_sequence \<Rightarrow> nat \<Rightarrow> rat" where
  "ins_key ts i = ts_edges_left ts ! nat (ts_indexes_edge_insertion_order ts ! i)"

definition outs_key :: "tree_sequence \<Rightarrow> nat \<Rightarrow> rat" where
  "outs_key ts i = ts_edges_right ts ! nat (ts_indexes_edge_removal_order ts ! i)"

text \<open>The cursor holds the arrays of the table.\<close>

definition cursor_of :: "tree_sequence \<Rightarrow> tree_position \<Rightarrow> bool" where
  "cursor_of ts tp \<longleftrightarrow>
     num_edges tp = int (ts_num_edges ts) \<and> sequence_length tp = ts_sequence_length ts \<and>
     edges_left tp = ts_edges_left ts \<and> edges_right tp = ts_edges_right ts \<and>
     edge_insertion_order tp = ts_indexes_edge_insertion_order ts \<and>
     edge_removal_order tp = ts_indexes_edge_removal_order ts"

text \<open>The two cursors, as positions in the insertion and the removal order.\<close>

definition ins_pos :: "tree_position \<Rightarrow> nat" where
  "ins_pos tp = nat (snd (in_range tp))"

definition outs_pos :: "tree_position \<Rightarrow> nat" where
  "outs_pos tp = nat (snd (out_range tp))"

text \<open>
  The invariant of the cursor between calls: both cursors are within range, every
  inserted edge starts at or before the left end of the current interval, every edge
  still to insert starts at or after its right end, every edge still to remove ends after
  its left end, every removed edge ends at or before it and had been inserted.
\<close>

definition cursor_inv :: "tree_sequence \<Rightarrow> tree_position \<Rightarrow> bool" where
  "cursor_inv ts tp \<longleftrightarrow>
     cursor_of ts tp \<and>
     0 \<le> snd (in_range tp) \<and> 0 \<le> snd (out_range tp) \<and>
     ins_pos tp \<le> ts_num_edges ts \<and> outs_pos tp \<le> ts_num_edges ts \<and>
     fst (interval tp) \<le> snd (interval tp) \<and>
     snd (interval tp) \<le> ts_sequence_length ts \<and>
     (\<forall>i<ins_pos tp. ins_key ts i \<le> fst (interval tp)) \<and>
     (\<forall>i. ins_pos tp \<le> i \<and> i < ts_num_edges ts \<longrightarrow> snd (interval tp) \<le> ins_key ts i) \<and>
     (\<forall>i. outs_pos tp \<le> i \<and> i < ts_num_edges ts \<longrightarrow>
          fst (interval tp) < outs_key ts i \<and> snd (interval tp) \<le> outs_key ts i) \<and>
     (\<forall>i<outs_pos tp. outs_key ts i \<le> fst (interval tp)) \<and>
     set (take (outs_pos tp) (ts_indexes_edge_removal_order ts))
       \<subseteq> set (take (ins_pos tp) (ts_indexes_edge_insertion_order ts))"

text \<open>After a call the right end of the interval is one of the three candidates.\<close>

definition cursor_min :: "tree_sequence \<Rightarrow> tree_position \<Rightarrow> bool" where
  "cursor_min ts tp \<longleftrightarrow>
     snd (interval tp) = ts_sequence_length ts \<or>
     (ins_pos tp < ts_num_edges ts \<and> snd (interval tp) = ins_key ts (ins_pos tp)) \<or>
     (outs_pos tp < ts_num_edges ts \<and> snd (interval tp) = outs_key ts (outs_pos tp))"

text \<open>What one call of \<open>next\<close> establishes on a well-formed table.\<close>

definition step_ok :: "tree_sequence \<Rightarrow> tree_position \<Rightarrow> bool \<Rightarrow> tree_position \<Rightarrow> bool" where
  "step_ok ts tp b tp' \<longleftrightarrow>
     cursor_inv ts tp' \<and> cursor_min ts tp' \<and>
     in_range tp' = (int (ins_pos tp), int (ins_pos tp')) \<and>
     out_range tp' = (int (outs_pos tp), int (outs_pos tp')) \<and>
     ins_pos tp \<le> ins_pos tp' \<and> outs_pos tp \<le> outs_pos tp' \<and>
     ins_pos tp' \<le> ts_num_edges ts \<and> outs_pos tp' \<le> ts_num_edges ts \<and>
     fst (interval tp') = snd (interval tp) \<and>
     (b \<longrightarrow> fst (interval tp') < snd (interval tp')) \<and>
     (\<not> b \<longrightarrow> ins_pos tp' = ts_num_edges ts \<and> outs_pos tp' = ts_num_edges ts \<and>
        snd (interval tp) = ts_sequence_length ts) \<and>
     (snd (interval tp) < ts_sequence_length ts \<longrightarrow> b) \<and>
     (b \<longrightarrow> cursor_min ts tp \<longrightarrow> ins_pos tp < ins_pos tp' \<or> outs_pos tp < outs_pos tp') \<and>
     (\<forall>i. outs_pos tp \<le> i \<and> i < outs_pos tp' \<longrightarrow>
        ts_indexes_edge_removal_order ts ! i
          \<in> set (take (ins_pos tp) (ts_indexes_edge_insertion_order ts)))"

text \<open>The number of edges of a set whose parent is the node \<open>q\<close>.\<close>

definition deg :: "tree_sequence \<Rightarrow> int set \<Rightarrow> int \<Rightarrow> nat" where
  "deg ts A q = card {e \<in> A. ts_edges_parent ts ! nat e = q}"

text \<open>
  The arrays of the accumulator describe the edge set \<open>A\<close>: \<open>num_children\<close> holds
  the out-degrees, all below \<open>num_nodes\<close>, \<open>nodes_with_arity[a]\<close> counts the nodes
  of out-degree \<open>a\<close> for every \<open>a \<ge> 1\<close>, and \<open>nodes_with_arity[0]\<close> is 0.
\<close>

definition acc_inv :: "tree_sequence \<Rightarrow> int set \<Rightarrow> stats_state \<Rightarrow> bool" where
  "acc_inv ts A s \<longleftrightarrow>
     length (num_children s) = ts_num_nodes ts \<and>
     length (nodes_with_arity s) = ts_num_nodes ts \<and>
     (\<forall>p<ts_num_nodes ts. num_children s ! p = int (deg ts A (int p))) \<and>
     (\<forall>p<ts_num_nodes ts. num_children s ! p < int (ts_num_nodes ts)) \<and>
     (\<forall>a. 0 < a \<and> a < ts_num_nodes ts \<longrightarrow>
        nodes_with_arity s ! a = int (count_list (num_children s) (int a))) \<and>
     (0 < ts_num_nodes ts \<longrightarrow> nodes_with_arity s ! 0 = 0)"

text \<open>The edges inserted and not yet removed.\<close>

definition active :: "tree_sequence \<Rightarrow> tree_position \<Rightarrow> int set" where
  "active ts tp =
     set (take (ins_pos tp) (ts_indexes_edge_insertion_order ts)) -
     set (take (outs_pos tp) (ts_indexes_edge_removal_order ts))"

section \<open>The cursor's advance operation\<close>

lemma next_fields:
  assumes "TreePosition_next tp = Inr (b, tp')"
  shows "num_edges tp' = num_edges tp" "sequence_length tp' = sequence_length tp"
    "edges_left tp' = edges_left tp" "edges_right tp' = edges_right tp"
    "edge_insertion_order tp' = edge_insertion_order tp"
    "edge_removal_order tp' = edge_removal_order tp"
    "fst (in_range tp') = snd (in_range tp)" "fst (out_range tp') = snd (out_range tp)"
    "fst (interval tp') = snd (interval tp)"
  using assms by (auto simp: TreePosition_next_def Let_def ebind_Inr)

text \<open>
  C4: a call of \<open>next\<close> returns false exactly when the insertion cursor after the call
  has reached \<open>num_edges\<close> and the right end of the previous interval is at least
  \<open>sequence_length\<close>; every other call returns true.
\<close>

theorem next_false_iff:
  assumes "TreePosition_next tp = Inr (b, tp')"
  shows "(\<not> b) =
           (num_edges tp \<le> snd (in_range tp') \<and> sequence_length tp \<le> snd (interval tp))"
  using assms by (auto simp: TreePosition_next_def Let_def ebind_Inr)

theorem next_false_iff_witness:
  "TreePosition_next (alloc_tree_position single_edge_table) =
     Inr (True, (alloc_tree_position single_edge_table)
                  \<lparr>in_range := (0, 1), out_range := (0, 0), interval := (0, 7)\<rparr>)
   \<and> \<not> (num_edges (alloc_tree_position single_edge_table) \<le> 1
        \<and> sequence_length (alloc_tree_position single_edge_table) \<le> 0)"
proof -
  have n: "TreePosition_next (alloc_tree_position single_edge_table) =
     Inr (True, (alloc_tree_position single_edge_table)
                  \<lparr>in_range := (0, 1), out_range := (0, 0), interval := (0, 7)\<rparr>)"
    by code_simp
  have i: "interval (alloc_tree_position single_edge_table) = (0, 0)"
    by (simp add: alloc_tree_position_def TreePosition_def)
  from next_false_iff [OF n] i
  have "\<not> (num_edges (alloc_tree_position single_edge_table) \<le> 1
        \<and> sequence_length (alloc_tree_position single_edge_table) \<le> 0)"
    by simp
  with n show ?thesis by blast
qed

lemma pending_Inr:
  "i < M \<Longrightarrow> getitem order i = Inr e \<Longrightarrow> getitem key e = Inr x \<Longrightarrow>
     pending key order M i = [x]"
  by (simp add: pending_def ebind_def)

lemma pending_done: "\<not> i < M \<Longrightarrow> pending key order M i = []"
  by (simp add: pending_def)

lemma boundary_step:
  assumes "(if i < M
            then ebind (getitem order i) (\<lambda>e. ebind (getitem key e) (\<lambda>x. Inr (min r x)))
            else Inr r) = Inr r'"
  shows "r' = Min (set (r # pending key order M i))"
proof (cases "i < M")
  case True
  with assms obtain e x where "getitem order i = Inr e" "getitem key e = Inr x" "r' = min r x"
    by (auto simp: ebind_Inr)
  with True show ?thesis by (simp add: pending_Inr)
next
  case False
  with assms show ?thesis by (simp add: pending_done)
qed

lemma Min_insert_Min:
  "finite A \<Longrightarrow> A \<noteq> {} \<Longrightarrow> finite B \<Longrightarrow> Min (insert (Min A) B) = Min (A \<union> B)"
  by (cases "B = {}") (simp_all add: Min.union)

text \<open>
  C5: after a call of \<open>next\<close> the interval is \<open>[previous_right, new_right)\<close>, where
  \<open>new_right\<close> is the minimum of \<open>sequence_length\<close>, the left end of the next edge
  not yet inserted (if one remains) and the right end of the next edge not yet removed
  (if one remains).
\<close>

theorem next_interval:
  assumes "TreePosition_next tp = Inr (b, tp')"
  shows "interval tp' =
           (snd (interval tp), minimum_boundary tp (snd (in_range tp')) (snd (out_range tp')))"
proof -
  from assms obtain k j r1 r2 where
    r1: "(if j < num_edges tp
          then ebind (getitem (edge_insertion_order tp) j) (\<lambda>e.
               ebind (getitem (edges_left tp) e) (\<lambda>l. Inr (min (sequence_length tp) l)))
          else Inr (sequence_length tp)) = Inr r1"
    and r2: "(if k < num_edges tp
          then ebind (getitem (edge_removal_order tp) k) (\<lambda>e.
               ebind (getitem (edges_right tp) e) (\<lambda>r. Inr (min r1 r)))
          else Inr r1) = Inr r2"
    and tp': "tp' = tp\<lparr> in_range := (snd (in_range tp), j),
                  out_range := (snd (out_range tp), k),
                  interval := (snd (interval tp), r2) \<rparr>"
    by (auto simp: TreePosition_next_def Let_def ebind_Inr)
  have "r2 = Min (insert r1 (set (pending (edges_right tp) (edge_removal_order tp) (num_edges tp) k)))"
    using boundary_step [OF r2] by simp
  also have "r1 = Min (set (sequence_length tp #
      pending (edges_left tp) (edge_insertion_order tp) (num_edges tp) j))"
    by (rule boundary_step [OF r1])
  also have "Min (insert (Min (set (sequence_length tp #
      pending (edges_left tp) (edge_insertion_order tp) (num_edges tp) j)))
        (set (pending (edges_right tp) (edge_removal_order tp) (num_edges tp) k)))
     = minimum_boundary tp j k"
    unfolding minimum_boundary_def
    by (subst Min_insert_Min) simp_all
  finally have "r2 = minimum_boundary tp j k" .
  with tp' show ?thesis by simp
qed

theorem next_interval_witness:
  "TreePosition_next (alloc_tree_position single_edge_table) =
     Inr (True, (alloc_tree_position single_edge_table)
                  \<lparr>in_range := (0, 1), out_range := (0, 0), interval := (0, 7)\<rparr>)
   \<and> minimum_boundary (alloc_tree_position single_edge_table) 1 0 = 7"
proof -
  have n: "TreePosition_next (alloc_tree_position single_edge_table) =
     Inr (True, (alloc_tree_position single_edge_table)
                  \<lparr>in_range := (0, 1), out_range := (0, 0), interval := (0, 7)\<rparr>)"
    by code_simp
  from next_interval [OF n]
  have "minimum_boundary (alloc_tree_position single_edge_table) 1 0 = 7"
    by simp
  with n show ?thesis by blast
qed

section \<open>The running maximum arity\<close>

text \<open>
  C1: in the removal step the running maximum arity should go down by one exactly when
  \<open>num_children[p]\<close> equals it and the bucket \<open>nodes_with_arity[num_children[p]]\<close>
  has just become 0. The source tests the bucket against 1. Both states below are the
  locals at the first emission point of a table. In the first, node 3 is the only node
  of arity 3: the bucket becomes 0 and the maximum stays 3. In the second, nodes 4 and 5
  both have arity 2: the bucket becomes 1 and the maximum goes down to 1 while node 5
  keeps arity 2.
\<close>

theorem remove_edge_max_arity:
  "map_option snd
     (after_rounds [0, 0, 0, 1] [3, 3, 3] [0, 1, 2] 1
        (alloc_tree_position three_children_table, init_state 3 4))
   = Some \<lparr> tbl = [3, 0, 0], num_internal_nodes = [1, 0, 0], max_arity = [3, 0, 0],
       num_children = [0, 0, 0, 3], nodes_with_arity = [0, 0, 0, 1],
       current_tbl = 3, tree_index = 1, current_num_internal_nodes = 1,
       current_max_arity = 3 \<rparr>
   \<and>
   remove_edge (alloc_tree_position three_children_table) [0, 0, 0, 1] [3, 3, 3] [0, 1, 2] 0
     \<lparr> tbl = [3, 0, 0], num_internal_nodes = [1, 0, 0], max_arity = [3, 0, 0],
       num_children = [0, 0, 0, 3], nodes_with_arity = [0, 0, 0, 1],
       current_tbl = 3, tree_index = 1, current_num_internal_nodes = 1,
       current_max_arity = 3 \<rparr>
   = Inr \<lparr> tbl = [3, 0, 0], num_internal_nodes = [1, 0, 0], max_arity = [3, 0, 0],
       num_children = [0, 0, 0, 2], nodes_with_arity = [0, 0, 1, 0],
       current_tbl = 2, tree_index = 1, current_num_internal_nodes = 1,
       current_max_arity = 3 \<rparr>
   \<and>
   map_option snd
     (after_rounds [0, 0, 0, 0, 1, 1] [4, 4, 5, 5] [0, 1, 2, 3] 1
        (alloc_tree_position two_parents_table, init_state 2 6))
   = Some \<lparr> tbl = [4, 0], num_internal_nodes = [2, 0], max_arity = [2, 0],
       num_children = [0, 0, 0, 0, 2, 2], nodes_with_arity = [0, 0, 2, 0, 0, 0],
       current_tbl = 4, tree_index = 1, current_num_internal_nodes = 2,
       current_max_arity = 2 \<rparr>
   \<and>
   remove_edge (alloc_tree_position two_parents_table) [0, 0, 0, 0, 1, 1] [4, 4, 5, 5]
     [0, 1, 2, 3] 0
     \<lparr> tbl = [4, 0], num_internal_nodes = [2, 0], max_arity = [2, 0],
       num_children = [0, 0, 0, 0, 2, 2], nodes_with_arity = [0, 0, 2, 0, 0, 0],
       current_tbl = 4, tree_index = 1, current_num_internal_nodes = 2,
       current_max_arity = 2 \<rparr>
   = Inr \<lparr> tbl = [4, 0], num_internal_nodes = [2, 0], max_arity = [2, 0],
       num_children = [0, 0, 0, 0, 1, 2], nodes_with_arity = [0, 1, 1, 0, 0, 0],
       current_tbl = 3, tree_index = 1, current_num_internal_nodes = 2,
       current_max_arity = 1 \<rparr>"
  by code_simp

text \<open>
  C2: the emitted \<open>max_arity\<close> should equal the largest out-degree of the local tree
  rebuilt from scratch. On the table whose node 3 goes from three children to two to
  one, the source emits 3 for all three trees; the rebuilt trees have largest
  out-degrees 3, 2 and 1.
\<close>

theorem max_arity_stale_on_three_children:
  "well_formed three_children_table \<and>
   compute_per_tree_stats three_children_table = Inr ([3, 2, 1], [1, 1, 1], [3, 3, 3]) \<and>
   map (brute_force_max_arity three_children_table) [0, 1, 2] = [3, 2, 1]"
  by code_simp

section \<open>The single-edge and the empty table\<close>

lemma getitem_nat [simp]: "0 \<le> i \<Longrightarrow> i < int (length xs) \<Longrightarrow> getitem xs i = Inr (xs ! nat i)"
  by (simp add: getitem_def py_index_def)

lemma setitem_nat [simp]:
  "0 \<le> i \<Longrightarrow> i < int (length xs) \<Longrightarrow> setitem xs i v = Inr (xs[nat i := v])"
  by (simp add: setitem_def py_index_def)

lemma ebind_simps [simp]: "ebind (Inr x) f = f x" "ebind (Inl e) f = Inl e"
  by (simp_all add: ebind_def)

lemma replicate_update_same [simp]: "(replicate n x)[i := x] = replicate n x"
  by (induction n arbitrary: i) (auto split: nat.splits)

text \<open>
  C9: with no edges and a positive \<open>sequence_length\<close> the traversal raises no error:
  the loop body runs once (\<open>tree_index\<close> ends at 1) and the three statistics of that
  tree are 0.
\<close>

theorem empty_table_stats:
  assumes "0 < L" "0 < T"
  shows "stats_loop nt [] []
           (alloc_tree_position
              \<lparr> ts_num_edges = 0, ts_sequence_length = L, ts_edges_left = [],
                ts_edges_right = [], ts_edges_parent = [], ts_edges_child = [],
                ts_indexes_edge_insertion_order = [], ts_indexes_edge_removal_order = [],
                ts_num_trees = T, ts_num_nodes = N, ts_nodes_time = nt \<rparr>,
            init_state T N)
         = Inr ((init_state T N)\<lparr> tree_index := 1 \<rparr>) \<and>
         compute_per_tree_stats
              \<lparr> ts_num_edges = 0, ts_sequence_length = L, ts_edges_left = [],
                ts_edges_right = [], ts_edges_parent = [], ts_edges_child = [],
                ts_indexes_edge_insertion_order = [], ts_indexes_edge_removal_order = [],
                ts_num_trees = T, ts_num_nodes = N, ts_nodes_time = nt \<rparr>
         = Inr (replicate T 0, replicate T 0, replicate T 0)"
proof -
  let ?tp0 = "\<lparr> num_edges = 0, sequence_length = L, edges_left = [], edges_right = [],
       edge_insertion_order = [], edge_removal_order = [],
       edge_insertion_index = 0, edge_removal_index = 0,
       interval = (0, 0), in_range = (0, 0), out_range = (0, 0) \<rparr>"
  let ?tp1 = "\<lparr> num_edges = 0, sequence_length = L, edges_left = [], edges_right = [],
       edge_insertion_order = [], edge_removal_order = [],
       edge_insertion_index = 0, edge_removal_index = 0,
       interval = (0, L), in_range = (0, 0), out_range = (0, 0) \<rparr>"
  let ?tp2 = "\<lparr> num_edges = 0, sequence_length = L, edges_left = [], edges_right = [],
       edge_insertion_order = [], edge_removal_order = [],
       edge_insertion_index = 0, edge_removal_index = 0,
       interval = (L, L), in_range = (0, 0), out_range = (0, 0) \<rparr>"
  let ?s0 = "init_state T N"
  have n1: "TreePosition_next ?tp0 = Inr (True, ?tp1)"
    using assms by (simp add: TreePosition_next_def TreePosition_def)
  have e: "emit ?s0 = Inr (?s0\<lparr> tree_index := 1 \<rparr>)"
    using assms by (simp add: emit_def init_state_def)
  have b1: "loop_body nt [] [] (?tp0, ?s0) = Inr (Some (?tp1, ?s0\<lparr> tree_index := 1 \<rparr>))"
    using e by (simp add: loop_body_def n1)
  have n2: "TreePosition_next ?tp1 = Inr (False, ?tp2)"
    using assms by (simp add: TreePosition_next_def TreePosition_def)
  have b2: "loop_body nt [] [] (?tp1, ?s0\<lparr> tree_index := 1 \<rparr>) = Inr None"
    by (simp add: loop_body_def n2)
  have l: "stats_loop nt [] [] (?tp0, ?s0) = Inr (?s0\<lparr> tree_index := 1 \<rparr>)"
    by (subst stats_loop.simps, simp only: b1 sum.case option.case, subst stats_loop.simps, simp only: b2 sum.case option.case snd_conv)
  then show ?thesis
    by (simp add: compute_per_tree_stats_def njit_compute_per_tree_stats_def
        alloc_tree_position_def TreePosition_def init_state_def)
qed

theorem empty_table_stats_witness:
  "compute_per_tree_stats
              \<lparr> ts_num_edges = 0, ts_sequence_length = 7, ts_edges_left = [],
                ts_edges_right = [], ts_edges_parent = [], ts_edges_child = [],
                ts_indexes_edge_insertion_order = [], ts_indexes_edge_removal_order = [],
                ts_num_trees = 1, ts_num_nodes = 2, ts_nodes_time = [0, 0] \<rparr>
         = Inr ([0], [0], [0])"
  using empty_table_stats [of 7 1 "[0, 0]" 2] by simp

text \<open>
  C8: for the table with the single edge \<open>(left = 0, right = L, parent = p, child = c)\<close>,
  \<open>time[p] = 5\<close>, \<open>time[c] = 2\<close> and \<open>sequence_length = L\<close> (with \<open>0 < L\<close>,
  as the edge invariant \<open>left < right\<close> requires), the loop body runs once and records
  total branch length 3, one internal node and maximum arity 1.
\<close>

theorem single_edge_stats:
  assumes "0 < L" "0 < T" "0 \<le> p" "p < int N" "0 \<le> c" "c < int N"
    and "length nt = N" "nt ! nat p = 5" "nt ! nat c = 2"
  shows "stats_loop nt [p] [c]
           (alloc_tree_position
              \<lparr> ts_num_edges = 1, ts_sequence_length = L, ts_edges_left = [0],
                ts_edges_right = [L], ts_edges_parent = [p], ts_edges_child = [c],
                ts_indexes_edge_insertion_order = [0], ts_indexes_edge_removal_order = [0],
                ts_num_trees = T, ts_num_nodes = N, ts_nodes_time = nt \<rparr>,
            init_state T N)
         = Inr \<lparr> tbl = (replicate T 0)[0 := 3], num_internal_nodes = (replicate T 0)[0 := 1],
                 max_arity = (replicate T 0)[0 := 1],
                 num_children = (replicate N 0)[nat p := 1],
                 nodes_with_arity = (replicate N 0)[1 := 1],
                 current_tbl = 3, tree_index = 1, current_num_internal_nodes = 1,
                 current_max_arity = 1 \<rparr> \<and>
         compute_per_tree_stats
              \<lparr> ts_num_edges = 1, ts_sequence_length = L, ts_edges_left = [0],
                ts_edges_right = [L], ts_edges_parent = [p], ts_edges_child = [c],
                ts_indexes_edge_insertion_order = [0], ts_indexes_edge_removal_order = [0],
                ts_num_trees = T, ts_num_nodes = N, ts_nodes_time = nt \<rparr>
         = Inr ((replicate T 0)[0 := 3], (replicate T 0)[0 := 1], (replicate T 0)[0 := 1])"
proof -
  let ?tp0 = "\<lparr> num_edges = 1, sequence_length = L, edges_left = [0], edges_right = [L],
       edge_insertion_order = [0], edge_removal_order = [0],
       edge_insertion_index = 0, edge_removal_index = 0,
       interval = (0, 0), in_range = (0, 0), out_range = (0, 0) \<rparr>"
  let ?tp1 = "\<lparr> num_edges = 1, sequence_length = L, edges_left = [0], edges_right = [L],
       edge_insertion_order = [0], edge_removal_order = [0],
       edge_insertion_index = 0, edge_removal_index = 0,
       interval = (0, L), in_range = (0, 1), out_range = (0, 0) \<rparr>"
  let ?tp2 = "\<lparr> num_edges = 1, sequence_length = L, edges_left = [0], edges_right = [L],
       edge_insertion_order = [0], edge_removal_order = [0],
       edge_insertion_index = 0, edge_removal_index = 0,
       interval = (L, L), in_range = (1, 1), out_range = (0, 1) \<rparr>"
  let ?s0 = "init_state T N"
  let ?s1 = "?s0\<lparr> num_children := (replicate N 0)[nat p := 1],
                 nodes_with_arity := (replicate N 0)[1 := 1],
                 current_max_arity := 1, current_num_internal_nodes := 1,
                 current_tbl := 3 \<rparr>"
  let ?s2 = "\<lparr> tbl = (replicate T 0)[0 := 3], num_internal_nodes = (replicate T 0)[0 := 1],
                 max_arity = (replicate T 0)[0 := 1],
                 num_children = (replicate N 0)[nat p := 1],
                 nodes_with_arity = (replicate N 0)[1 := 1],
                 current_tbl = 3, tree_index = 1, current_num_internal_nodes = 1,
                 current_max_arity = 1 \<rparr>"
  from assms have pc: "p \<noteq> c" by auto
  with assms have N: "1 < int N" by linarith
  have n1: "TreePosition_next ?tp0 = Inr (True, ?tp1)"
    using assms by (simp add: TreePosition_next_def TreePosition_def)
  have i: "insert_edge ?tp1 nt [p] [c] 0 ?s0 = Inr ?s1"
    using assms N by (simp add: insert_edge_def init_state_def TreePosition_def)
  have e: "emit ?s1 = Inr ?s2"
    using assms by (simp add: emit_def init_state_def)
  have b1: "loop_body nt [p] [c] (?tp0, ?s0) = Inr (Some (?tp1, ?s2))"
    using e i by (simp add: loop_body_def n1 upto.simps)
  have n2: "TreePosition_next ?tp1 = Inr (False, ?tp2)"
    using assms by (simp add: TreePosition_next_def TreePosition_def)
  have b2: "loop_body nt [p] [c] (?tp1, ?s2) = Inr None"
    by (simp add: loop_body_def n2)
  have l: "stats_loop nt [p] [c] (?tp0, ?s0) = Inr ?s2"
    by (subst stats_loop.simps, simp only: b1 sum.case option.case, subst stats_loop.simps, simp only: b2 sum.case option.case snd_conv)
  then show ?thesis
    by (simp add: compute_per_tree_stats_def njit_compute_per_tree_stats_def
        alloc_tree_position_def TreePosition_def)
qed

theorem single_edge_stats_witness:
  "compute_per_tree_stats single_edge_table = Inr ([3], [1], [1])"
  using single_edge_stats [of 7 1 1 2 0 "[2, 5]"] by (simp add: single_edge_table_def)

section \<open>The cursor on a well-formed table\<close>

lemma valid_order_nth:
  "valid_order M order \<Longrightarrow> i < M \<Longrightarrow> 0 \<le> order ! i \<and> order ! i < int M"
  by (auto simp: valid_order_def list_all_length)

lemma valid_order_onto:
  assumes "valid_order M order" "e < M"
  shows "\<exists>i<M. order ! i = int e"
proof -
  have sub: "set order \<subseteq> int ` {..<M}"
  proof
    fix x assume "x \<in> set order"
    with assms have "0 \<le> x" "x < int M" by (auto simp: valid_order_def list_all_iff)
    then have "x = int (nat x)" "nat x < M" by auto
    then show "x \<in> int ` {..<M}" by blast
  qed
  from assms have "card (set order) = M"
    by (simp add: valid_order_def distinct_card)
  moreover have "card (int ` {..<M}) = M"
    by (simp add: card_image)
  ultimately have "set order = int ` {..<M}"
    using sub by (intro card_subset_eq) auto
  with assms have "int e \<in> set order" by auto
  then obtain i where "i < length order" "order ! i = int e"
    by (auto simp: in_set_conv_nth)
  with assms show ?thesis by (auto simp: valid_order_def)
qed

lemma wf_ins_sorted:
  "well_formed_edges ts \<Longrightarrow> i \<le> i' \<Longrightarrow> i' < ts_num_edges ts \<Longrightarrow> ins_key ts i \<le> ins_key ts i'"
  by (auto simp: well_formed_edges_def ins_key_def valid_order_def sorted_iff_nth_mono
      dest!: spec [of _ i] spec [of _ i'])

lemma wf_outs_sorted:
  "well_formed_edges ts \<Longrightarrow> i \<le> i' \<Longrightarrow> i' < ts_num_edges ts \<Longrightarrow> outs_key ts i \<le> outs_key ts i'"
  by (auto simp: well_formed_edges_def outs_key_def valid_order_def sorted_iff_nth_mono
      dest!: spec [of _ i] spec [of _ i'])

lemma wf_edge:
  "well_formed_edges ts \<Longrightarrow> e < ts_num_edges ts \<Longrightarrow>
     0 \<le> ts_edges_left ts ! e \<and> ts_edges_left ts ! e < ts_edges_right ts ! e \<and>
     ts_edges_right ts ! e \<le> ts_sequence_length ts"
  by (auto simp: well_formed_edges_def list_all_iff)

lemma wf_ins_nth:
  "well_formed_edges ts \<Longrightarrow> i < ts_num_edges ts \<Longrightarrow>
     0 \<le> ts_indexes_edge_insertion_order ts ! i \<and>
     ts_indexes_edge_insertion_order ts ! i < int (ts_num_edges ts) \<and>
     nat (ts_indexes_edge_insertion_order ts ! i) < ts_num_edges ts"
  using valid_order_nth [of "ts_num_edges ts" "ts_indexes_edge_insertion_order ts" i]
  by (auto simp: well_formed_edges_def)

lemma wf_outs_nth:
  "well_formed_edges ts \<Longrightarrow> i < ts_num_edges ts \<Longrightarrow>
     0 \<le> ts_indexes_edge_removal_order ts ! i \<and>
     ts_indexes_edge_removal_order ts ! i < int (ts_num_edges ts) \<and>
     nat (ts_indexes_edge_removal_order ts ! i) < ts_num_edges ts"
  using valid_order_nth [of "ts_num_edges ts" "ts_indexes_edge_removal_order ts" i]
  by (auto simp: well_formed_edges_def)

lemma wf_ins_key:
  "well_formed_edges ts \<Longrightarrow> i < ts_num_edges ts \<Longrightarrow>
     0 \<le> ins_key ts i \<and> ins_key ts i < ts_sequence_length ts"
  using wf_edge [of ts "nat (ts_indexes_edge_insertion_order ts ! i)"] wf_ins_nth [of ts i]
  by (auto simp: ins_key_def)

lemma wf_outs_key:
  "well_formed_edges ts \<Longrightarrow> i < ts_num_edges ts \<Longrightarrow>
     0 < outs_key ts i \<and> outs_key ts i \<le> ts_sequence_length ts"
  using wf_edge [of ts "nat (ts_indexes_edge_removal_order ts ! i)"] wf_outs_nth [of ts i]
  by (auto simp: outs_key_def)

lemma wf_lengths:
  "well_formed_edges ts \<Longrightarrow>
     length (ts_edges_left ts) = ts_num_edges ts \<and> length (ts_edges_right ts) = ts_num_edges ts \<and>
     length (ts_indexes_edge_insertion_order ts) = ts_num_edges ts \<and>
     length (ts_indexes_edge_removal_order ts) = ts_num_edges ts"
  by (simp add: well_formed_edges_def valid_order_def)

lemma in_scan_read:
  assumes "well_formed_edges ts" "cursor_of ts tp" "j < ts_num_edges ts"
  shows "in_scan tp x (int j) = (if ins_key ts j = x then in_scan tp x (int (Suc j)) else Inr (int j))"
proof -
  from assms wf_ins_nth [of ts j] wf_lengths [of ts]
  have "getitem (edge_insertion_order tp) (int j) = Inr (ts_indexes_edge_insertion_order ts ! j)"
    and "getitem (edges_left tp) (ts_indexes_edge_insertion_order ts ! j) = Inr (ins_key ts j)"
    by (simp_all add: cursor_of_def ins_key_def)
  with assms show ?thesis
    by (subst in_scan.simps) (simp add: cursor_of_def add.commute)
qed

lemma in_scan_spec:
  assumes "well_formed_edges ts" "cursor_of ts tp" "j \<le> ts_num_edges ts"
  shows "\<exists>j'. in_scan tp x (int j) = Inr (int j') \<and> j \<le> j' \<and> j' \<le> ts_num_edges ts \<and>
           (\<forall>i. j \<le> i \<and> i < j' \<longrightarrow> ins_key ts i = x) \<and>
           (j' < ts_num_edges ts \<longrightarrow> ins_key ts j' \<noteq> x)"
  using assms(3)
proof (induction "ts_num_edges ts - j" arbitrary: j)
  case 0
  then have "j = ts_num_edges ts" by simp
  moreover have "in_scan tp x (int (ts_num_edges ts)) = Inr (int (ts_num_edges ts))"
    using assms(2) by (subst in_scan.simps) (simp add: cursor_of_def)
  ultimately show ?case by auto
next
  case (Suc n)
  then have lt: "j < ts_num_edges ts" by simp
  show ?case
  proof (cases "ins_key ts j = x")
    case False
    with in_scan_read [OF assms(1,2) lt, of x] lt show ?thesis by auto
  next
    case True
    from Suc have "n = ts_num_edges ts - Suc j" "Suc j \<le> ts_num_edges ts" by simp_all
    from Suc.hyps(1) [OF this] obtain j' where
      j': "in_scan tp x (int (Suc j)) = Inr (int j')" "Suc j \<le> j'" "j' \<le> ts_num_edges ts"
      "\<forall>i. Suc j \<le> i \<and> i < j' \<longrightarrow> ins_key ts i = x"
      "j' < ts_num_edges ts \<longrightarrow> ins_key ts j' \<noteq> x"
      by blast
    have "\<forall>i. j \<le> i \<and> i < j' \<longrightarrow> ins_key ts i = x"
    proof (intro allI impI)
      fix i assume "j \<le> i \<and> i < j'"
      then show "ins_key ts i = x"
        using True j'(4) by (cases "i = j") auto
    qed
    with in_scan_read [OF assms(1,2) lt, of x] True j' show ?thesis
      by (intro exI [of _ j']) auto
  qed
qed

lemma out_scan_read:
  assumes "well_formed_edges ts" "cursor_of ts tp" "k < ts_num_edges ts"
  shows "out_scan tp x (int k) = (if outs_key ts k = x then out_scan tp x (int (Suc k)) else Inr (int k))"
proof -
  from assms wf_outs_nth [of ts k] wf_lengths [of ts]
  have "getitem (edge_removal_order tp) (int k) = Inr (ts_indexes_edge_removal_order ts ! k)"
    and "getitem (edges_right tp) (ts_indexes_edge_removal_order ts ! k) = Inr (outs_key ts k)"
    by (simp_all add: cursor_of_def outs_key_def)
  with assms show ?thesis
    by (subst out_scan.simps) (simp add: cursor_of_def add.commute)
qed

lemma out_scan_spec:
  assumes "well_formed_edges ts" "cursor_of ts tp" "k \<le> ts_num_edges ts"
  shows "\<exists>k'. out_scan tp x (int k) = Inr (int k') \<and> k \<le> k' \<and> k' \<le> ts_num_edges ts \<and>
           (\<forall>i. k \<le> i \<and> i < k' \<longrightarrow> outs_key ts i = x) \<and>
           (k' < ts_num_edges ts \<longrightarrow> outs_key ts k' \<noteq> x)"
  using assms(3)
proof (induction "ts_num_edges ts - k" arbitrary: k)
  case 0
  then have "k = ts_num_edges ts" by simp
  moreover have "out_scan tp x (int (ts_num_edges ts)) = Inr (int (ts_num_edges ts))"
    using assms(2) by (subst out_scan.simps) (simp add: cursor_of_def)
  ultimately show ?case by auto
next
  case (Suc n)
  then have lt: "k < ts_num_edges ts" by simp
  show ?case
  proof (cases "outs_key ts k = x")
    case False
    with out_scan_read [OF assms(1,2) lt, of x] lt show ?thesis by auto
  next
    case True
    from Suc have "n = ts_num_edges ts - Suc k" "Suc k \<le> ts_num_edges ts" by simp_all
    from Suc.hyps(1) [OF this] obtain k' where
      k': "out_scan tp x (int (Suc k)) = Inr (int k')" "Suc k \<le> k'" "k' \<le> ts_num_edges ts"
      "\<forall>i. Suc k \<le> i \<and> i < k' \<longrightarrow> outs_key ts i = x"
      "k' < ts_num_edges ts \<longrightarrow> outs_key ts k' \<noteq> x"
      by blast
    have "\<forall>i. k \<le> i \<and> i < k' \<longrightarrow> outs_key ts i = x"
    proof (intro allI impI)
      fix i assume "k \<le> i \<and> i < k'"
      then show "outs_key ts i = x"
        using True k'(4) by (cases "i = k") auto
    qed
    with out_scan_read [OF assms(1,2) lt, of x] True k' show ?thesis
      by (intro exI [of _ k']) auto
  qed
qed

lemma next_raw:
  assumes wf: "well_formed_edges ts" and cof: "cursor_of ts tp"
    and j: "snd (in_range tp) = int j" "j \<le> ts_num_edges ts"
    and k: "snd (out_range tp) = int k" "k \<le> ts_num_edges ts"
    and xsl: "snd (interval tp) \<le> ts_sequence_length ts"
    and c: "\<forall>i. j \<le> i \<and> i < ts_num_edges ts \<longrightarrow> snd (interval tp) \<le> ins_key ts i"
    and d: "\<forall>i. k \<le> i \<and> i < ts_num_edges ts \<longrightarrow> snd (interval tp) \<le> outs_key ts i"
  obtains j' k' xr where
    "TreePosition_next tp =
       Inr (j' < ts_num_edges ts \<or> snd (interval tp) < ts_sequence_length ts,
            tp\<lparr> in_range := (int j, int j'), out_range := (int k, int k'),
                interval := (snd (interval tp), xr) \<rparr>)"
    "j \<le> j'" "j' \<le> ts_num_edges ts" "k \<le> k'" "k' \<le> ts_num_edges ts"
    "\<forall>i. j \<le> i \<and> i < j' \<longrightarrow> ins_key ts i = snd (interval tp)"
    "\<forall>i. j' \<le> i \<and> i < ts_num_edges ts \<longrightarrow> snd (interval tp) < ins_key ts i \<and> xr \<le> ins_key ts i"
    "\<forall>i. k \<le> i \<and> i < k' \<longrightarrow> outs_key ts i = snd (interval tp)"
    "\<forall>i. k' \<le> i \<and> i < ts_num_edges ts \<longrightarrow> snd (interval tp) < outs_key ts i \<and> xr \<le> outs_key ts i"
    "snd (interval tp) \<le> xr" "xr \<le> ts_sequence_length ts"
    "xr = ts_sequence_length ts \<or> (j' < ts_num_edges ts \<and> xr = ins_key ts j') \<or>
       (k' < ts_num_edges ts \<and> xr = outs_key ts k')"
    "j' < ts_num_edges ts \<or> snd (interval tp) < ts_sequence_length ts \<Longrightarrow> snd (interval tp) < xr"
proof -
  let ?M = "ts_num_edges ts" and ?x = "snd (interval tp)" and ?sl = "ts_sequence_length ts"
  from in_scan_spec [OF wf cof j(2), of ?x] obtain j' where
    j': "in_scan tp ?x (int j) = Inr (int j')" "j \<le> j'" "j' \<le> ?M"
      "\<forall>i. j \<le> i \<and> i < j' \<longrightarrow> ins_key ts i = ?x" "j' < ?M \<longrightarrow> ins_key ts j' \<noteq> ?x"
    by blast
  from out_scan_spec [OF wf cof k(2), of ?x] obtain k' where
    k': "out_scan tp ?x (int k) = Inr (int k')" "k \<le> k'" "k' \<le> ?M"
      "\<forall>i. k \<le> i \<and> i < k' \<longrightarrow> outs_key ts i = ?x" "k' < ?M \<longrightarrow> outs_key ts k' \<noteq> ?x"
    by blast
  have jgt: "?x < ins_key ts i" if "j' \<le> i" "i < ?M" for i
  proof -
    from that have "j' < ?M" by simp
    with j' c have "?x < ins_key ts j'" by (simp add: order.strict_iff_order)
    also have "ins_key ts j' \<le> ins_key ts i" using that by (intro wf_ins_sorted [OF wf])
    finally show ?thesis .
  qed
  have kgt: "?x < outs_key ts i" if "k' \<le> i" "i < ?M" for i
  proof -
    from that have "k' < ?M" by simp
    with k' d have "?x < outs_key ts k'" by (simp add: order.strict_iff_order)
    also have "outs_key ts k' \<le> outs_key ts i" using that by (intro wf_outs_sorted [OF wf])
    finally show ?thesis .
  qed
  define r1 where "r1 = (if j' < ?M then min ?sl (ins_key ts j') else ?sl)"
  define xr where "xr = (if k' < ?M then min r1 (outs_key ts k') else r1)"
  have g1: "(if int j' < num_edges tp
          then ebind (getitem (edge_insertion_order tp) (int j')) (\<lambda>e.
               ebind (getitem (edges_left tp) e) (\<lambda>l. Inr (min (sequence_length tp) l)))
          else Inr (sequence_length tp)) = Inr r1"
    using cof wf_ins_nth [OF wf, of j'] wf_lengths [OF wf]
    by (auto simp: cursor_of_def r1_def ins_key_def)
  have g2: "(if int k' < num_edges tp
          then ebind (getitem (edge_removal_order tp) (int k')) (\<lambda>e.
               ebind (getitem (edges_right tp) e) (\<lambda>r. Inr (min r1 r)))
          else Inr r1) = Inr xr"
    using cof wf_outs_nth [OF wf, of k'] wf_lengths [OF wf]
    by (auto simp: cursor_of_def xr_def outs_key_def)
  have n: "TreePosition_next tp =
       Inr (j' < ?M \<or> ?x < ?sl,
            tp\<lparr> in_range := (int j, int j'), out_range := (int k, int k'),
                interval := (?x, xr) \<rparr>)"
    unfolding TreePosition_next_def Let_def j(1) k(1)
    using cof
    by (simp only: j'(1) k'(1) g1 g2 ebind_simps) (simp add: cursor_of_def)
  have le_ins: "xr \<le> ins_key ts i" if "j' \<le> i" "i < ?M" for i
  proof -
    from that have "j' < ?M" by simp
    then have "xr \<le> ins_key ts j'" by (simp add: xr_def r1_def min.coboundedI1)
    also have "ins_key ts j' \<le> ins_key ts i" using that by (intro wf_ins_sorted [OF wf])
    finally show ?thesis .
  qed
  have le_outs: "xr \<le> outs_key ts i" if "k' \<le> i" "i < ?M" for i
  proof -
    from that have "k' < ?M" by simp
    then have "xr \<le> outs_key ts k'" by (simp add: xr_def)
    also have "outs_key ts k' \<le> outs_key ts i" using that by (intro wf_outs_sorted [OF wf])
    finally show ?thesis .
  qed
  have lo: "?x \<le> xr"
    using xsl jgt [of j'] kgt [of k'] by (auto simp: xr_def r1_def)
  have hi: "xr \<le> ?sl"
    by (auto simp: xr_def r1_def min.coboundedI1)
  have which: "xr = ?sl \<or> (j' < ?M \<and> xr = ins_key ts j') \<or> (k' < ?M \<and> xr = outs_key ts k')"
    by (auto simp: xr_def r1_def min_def)
  have strict: "?x < xr" if "j' < ?M \<or> ?x < ?sl"
  proof -
    have "?x < ?sl"
      using that jgt [of j'] wf_ins_key [OF wf, of j'] by auto
    then show ?thesis
      using jgt [of j'] kgt [of k'] by (auto simp: xr_def r1_def)
  qed
  show ?thesis
    using that [OF n j'(2,3) k'(2,3) j'(4) _ k'(4) _ lo hi which strict] jgt kgt le_ins le_outs
    by blast
qed

lemma cursor_inv_start:
  assumes "well_formed_edges ts"
  shows "cursor_inv ts (alloc_tree_position ts)"
  using assms wf_ins_key [OF assms] wf_outs_key [OF assms]
  by (auto simp: cursor_inv_def cursor_of_def alloc_tree_position_def TreePosition_def
      ins_pos_def outs_pos_def well_formed_edges_def order.strict_implies_order)

lemma wf_order_index:
  assumes "well_formed_edges ts" "i < ts_num_edges ts"
  shows "\<exists>m<ts_num_edges ts. ts_indexes_edge_insertion_order ts ! m = ts_indexes_edge_removal_order ts ! i"
proof -
  let ?e = "ts_indexes_edge_removal_order ts ! i"
  from wf_outs_nth [OF assms] have "0 \<le> ?e" "nat ?e < ts_num_edges ts" by auto
  moreover from assms have "valid_order (ts_num_edges ts) (ts_indexes_edge_insertion_order ts)"
    by (simp add: well_formed_edges_def)
  ultimately show ?thesis
    using valid_order_onto [of "ts_num_edges ts" "ts_indexes_edge_insertion_order ts" "nat ?e"]
    by auto
qed

text \<open>An edge removed at a breakpoint entered the tree at an earlier call.\<close>

lemma removed_was_inserted:
  assumes wf: "well_formed_edges ts"
    and c: "\<forall>i. j \<le> i \<and> i < ts_num_edges ts \<longrightarrow> x \<le> ins_key ts i"
    and i: "i < ts_num_edges ts" "outs_key ts i = x" and j: "j \<le> ts_num_edges ts"
  shows "ts_indexes_edge_removal_order ts ! i \<in> set (take j (ts_indexes_edge_insertion_order ts))"
proof -
  let ?e = "ts_indexes_edge_removal_order ts ! i"
  from wf_order_index [OF wf i(1)] obtain m where
    m: "m < ts_num_edges ts" "ts_indexes_edge_insertion_order ts ! m = ?e" by blast
  from wf_edge [OF wf, of "nat ?e"] wf_outs_nth [OF wf i(1)]
  have "ts_edges_left ts ! nat ?e < ts_edges_right ts ! nat ?e" by simp
  with m i have "ins_key ts m < x" by (simp add: ins_key_def outs_key_def)
  with c m have "m < j" by (metis not_le_imp_less not_less)
  with m wf_lengths [OF wf] j show ?thesis
    by (auto simp: in_set_conv_nth intro!: exI [of _ m])
qed

lemma next_step:
  assumes wf: "well_formed_edges ts" and inv: "cursor_inv ts tp"
  obtains b tp' where
    "TreePosition_next tp = Inr (b, tp')"
    "cursor_inv ts tp'" "cursor_min ts tp'"
    "in_range tp' = (int (ins_pos tp), int (ins_pos tp'))"
    "out_range tp' = (int (outs_pos tp), int (outs_pos tp'))"
    "ins_pos tp \<le> ins_pos tp'" "outs_pos tp \<le> outs_pos tp'"
    "fst (interval tp') = snd (interval tp)"
    "b \<Longrightarrow> fst (interval tp') < snd (interval tp')"
    "\<not> b \<Longrightarrow> ins_pos tp' = ts_num_edges ts \<and> outs_pos tp' = ts_num_edges ts \<and>
        snd (interval tp) = ts_sequence_length ts"
    "snd (interval tp) < ts_sequence_length ts \<Longrightarrow> b"
    "b \<Longrightarrow> cursor_min ts tp \<Longrightarrow> ins_pos tp < ins_pos tp' \<or> outs_pos tp < outs_pos tp'"
    "\<forall>i. outs_pos tp \<le> i \<and> i < outs_pos tp' \<longrightarrow>
        ts_indexes_edge_removal_order ts ! i
          \<in> set (take (ins_pos tp) (ts_indexes_edge_insertion_order ts))"
proof -
  let ?M = "ts_num_edges ts" and ?x = "snd (interval tp)" and ?sl = "ts_sequence_length ts"
  let ?j = "ins_pos tp" and ?k = "outs_pos tp"
  from inv have cof: "cursor_of ts tp"
    and j: "snd (in_range tp) = int ?j" "?j \<le> ?M"
    and k: "snd (out_range tp) = int ?k" "?k \<le> ?M"
    and xl: "fst (interval tp) \<le> ?x" and xsl: "?x \<le> ?sl"
    and b: "\<forall>i<?j. ins_key ts i \<le> fst (interval tp)"
    and c: "\<forall>i. ?j \<le> i \<and> i < ?M \<longrightarrow> ?x \<le> ins_key ts i"
    and d: "\<forall>i. ?k \<le> i \<and> i < ?M \<longrightarrow> ?x \<le> outs_key ts i"
    and e: "\<forall>i<?k. outs_key ts i \<le> fst (interval tp)"
    and f: "set (take ?k (ts_indexes_edge_removal_order ts))
              \<subseteq> set (take ?j (ts_indexes_edge_insertion_order ts))"
    unfolding cursor_inv_def ins_pos_def outs_pos_def by simp_all
  show thesis
  proof (rule next_raw [OF wf cof j k xsl c d])
  fix j' k' xr
  assume n: "TreePosition_next tp =
       Inr (j' < ?M \<or> ?x < ?sl,
            tp\<lparr> in_range := (int ?j, int j'), out_range := (int ?k, int k'),
                interval := (?x, xr) \<rparr>)"
    and jj: "?j \<le> j'" "j' \<le> ?M" and kk: "?k \<le> k'" "k' \<le> ?M"
    and j_eq: "\<forall>i. ?j \<le> i \<and> i < j' \<longrightarrow> ins_key ts i = ?x"
    and j_gt: "\<forall>i. j' \<le> i \<and> i < ?M \<longrightarrow> ?x < ins_key ts i \<and> xr \<le> ins_key ts i"
    and k_eq: "\<forall>i. ?k \<le> i \<and> i < k' \<longrightarrow> outs_key ts i = ?x"
    and k_gt: "\<forall>i. k' \<le> i \<and> i < ?M \<longrightarrow> ?x < outs_key ts i \<and> xr \<le> outs_key ts i"
    and lo: "?x \<le> xr" and hi: "xr \<le> ?sl"
    and which: "xr = ?sl \<or> (j' < ?M \<and> xr = ins_key ts j') \<or> (k' < ?M \<and> xr = outs_key ts k')"
    and strict: "j' < ?M \<or> ?x < ?sl \<Longrightarrow> ?x < xr"
  let ?b = "j' < ?M \<or> ?x < ?sl"
  let ?tp' = "tp\<lparr> in_range := (int ?j, int j'), out_range := (int ?k, int k'),
                interval := (?x, xr) \<rparr>"
  have pos: "ins_pos ?tp' = j'" "outs_pos ?tp' = k'"
    by (simp_all add: ins_pos_def outs_pos_def)
  have removed: "ts_indexes_edge_removal_order ts ! i
          \<in> set (take ?j (ts_indexes_edge_insertion_order ts))"
    if "?k \<le> i" "i < k'" for i
  proof -
    from that kk have "i < ?M" by simp
    moreover from that k_eq have "outs_key ts i = ?x" by blast
    ultimately show ?thesis by (rule removed_was_inserted [OF wf c _ _ j(2)])
  qed
  have sub: "set (take k' (ts_indexes_edge_removal_order ts))
              \<subseteq> set (take j' (ts_indexes_edge_insertion_order ts))"
  proof
    fix e assume "e \<in> set (take k' (ts_indexes_edge_removal_order ts))"
    then obtain i where i: "i < k'" "e = ts_indexes_edge_removal_order ts ! i"
      using kk wf_lengths [OF wf] by (auto simp: in_set_conv_nth)
    have "e \<in> set (take ?j (ts_indexes_edge_insertion_order ts))"
    proof (cases "i < ?k")
      case True
      with i k wf_lengths [OF wf] have "e \<in> set (take ?k (ts_indexes_edge_removal_order ts))"
        by (auto simp: in_set_conv_nth intro!: exI [of _ i])
      with f show ?thesis by blast
    next
      case False
      with removed [of i] i show ?thesis by simp
    qed
    then show "e \<in> set (take j' (ts_indexes_edge_insertion_order ts))"
      using set_take_subset_set_take [OF jj(1), of "ts_indexes_edge_insertion_order ts"]
      by blast
  qed
  have b': "\<forall>i<j'. ins_key ts i \<le> ?x"
  proof (intro allI impI)
    fix i assume "i < j'"
    show "ins_key ts i \<le> ?x"
    proof (cases "i < ?j")
      case True
      with b have "ins_key ts i \<le> fst (interval tp)" by blast
      with xl show ?thesis by linarith
    next
      case False
      with j_eq \<open>i < j'\<close> show ?thesis by simp
    qed
  qed
  have e': "\<forall>i<k'. outs_key ts i \<le> ?x"
  proof (intro allI impI)
    fix i assume "i < k'"
    show "outs_key ts i \<le> ?x"
    proof (cases "i < ?k")
      case True
      with e have "outs_key ts i \<le> fst (interval tp)" by blast
      with xl show ?thesis by linarith
    next
      case False
      with k_eq \<open>i < k'\<close> show ?thesis by simp
    qed
  qed
  have cof': "cursor_of ts ?tp'"
    using cof by (simp add: cursor_of_def)
  have k_gt': "\<forall>i. k' \<le> i \<and> i < ?M \<longrightarrow> ?x < outs_key ts i \<and> xr \<le> outs_key ts i"
    using k_gt by blast
  have j_gt': "\<forall>i. j' \<le> i \<and> i < ?M \<longrightarrow> xr \<le> ins_key ts i"
    using j_gt by blast
  have inv': "cursor_inv ts ?tp'"
    unfolding cursor_inv_def pos
    apply (intro conjI)
    apply (rule cof')
    apply simp
    apply simp
    apply (rule jj(2))
    apply (rule kk(2))
    using lo apply simp
    using hi apply simp
    using b' apply simp
    using j_gt' apply simp
    using k_gt' apply simp
    using e' apply simp
    apply (rule sub)
    done
  have min': "cursor_min ts ?tp'"
    unfolding cursor_min_def pos using which by simp
  have nb: "ins_pos ?tp' = ?M \<and> outs_pos ?tp' = ?M \<and> ?x = ?sl" if "\<not> ?b"
  proof -
    from that jj xsl have 1: "j' = ?M" "?x = ?sl" by auto
    have "k' = ?M"
    proof (rule ccontr)
      assume "k' \<noteq> ?M"
      with kk have lt: "k' < ?M" by simp
      with k_gt have "?x < outs_key ts k'" by blast
      moreover from wf_outs_key [OF wf lt] have "outs_key ts k' \<le> ?sl" by simp
      ultimately show False using 1 by simp
    qed
    with 1 pos show ?thesis by simp
  qed
  have prog: "?j < j' \<or> ?k < k'" if "?b" "cursor_min ts tp"
  proof -
    from that(2) consider "?x = ?sl" | "?j < ?M" "?x = ins_key ts ?j" | "?k < ?M" "?x = outs_key ts ?k"
      by (auto simp: cursor_min_def)
    then show ?thesis
    proof cases
      case 1
      with that(1) have lt: "j' < ?M" by simp
      with j_gt have "?x < ins_key ts j'" by blast
      moreover from wf_ins_key [OF wf lt] have "ins_key ts j' < ?sl" by simp
      ultimately show ?thesis using 1 by simp
    next
      case 2
      have "?j \<noteq> j'"
      proof
        assume "?j = j'"
        with 2 j_gt have "?x < ins_key ts ?j" by blast
        with 2 show False by simp
      qed
      with jj show ?thesis by simp
    next
      case 3
      have "?k \<noteq> k'"
      proof
        assume "?k = k'"
        with 3 k_gt have "?x < outs_key ts ?k" by blast
        with 3 show False by simp
      qed
      with kk show ?thesis by simp
    qed
  qed
  show thesis
  proof (rule that [of ?b ?tp'])
    show "TreePosition_next tp = Inr (?b, ?tp')" by (rule n)
    show "cursor_inv ts ?tp'" by (rule inv')
    show "cursor_min ts ?tp'" by (rule min')
    show "in_range ?tp' = (int ?j, int (ins_pos ?tp'))" by (simp add: pos)
    show "out_range ?tp' = (int ?k, int (outs_pos ?tp'))" by (simp add: pos)
    show "?j \<le> ins_pos ?tp'" "?k \<le> outs_pos ?tp'" using jj kk by (simp_all add: pos)
    show "fst (interval ?tp') = ?x" by simp
    show "fst (interval ?tp') < snd (interval ?tp')" if "?b" using strict [OF that] by simp
    show "ins_pos ?tp' = ?M \<and> outs_pos ?tp' = ?M \<and> ?x = ?sl" if "\<not> ?b" using nb [OF that] .
    show "?b" if "?x < ?sl" using that by simp
    show "?j < ins_pos ?tp' \<or> ?k < outs_pos ?tp'" if "?b" "cursor_min ts tp"
      using prog [OF that] by (simp add: pos)
    show "\<forall>i. ?k \<le> i \<and> i < outs_pos ?tp' \<longrightarrow>
        ts_indexes_edge_removal_order ts ! i
          \<in> set (take ?j (ts_indexes_edge_insertion_order ts))"
      using removed by (simp add: pos)
  qed
qed
qed

lemma next_total:
  assumes wf: "well_formed_edges ts" and inv: "cursor_inv ts tp"
  shows "\<exists>b tp'. TreePosition_next tp = Inr (b, tp') \<and> step_ok ts tp b tp'"
proof (rule next_step [OF wf inv])
  fix b tp'
  assume n: "TreePosition_next tp = Inr (b, tp')"
    and h: "cursor_inv ts tp'" "cursor_min ts tp'"
    "in_range tp' = (int (ins_pos tp), int (ins_pos tp'))"
    "out_range tp' = (int (outs_pos tp), int (outs_pos tp'))"
    "ins_pos tp \<le> ins_pos tp'" "outs_pos tp \<le> outs_pos tp'"
    "fst (interval tp') = snd (interval tp)"
    and m1: "b \<Longrightarrow> fst (interval tp') < snd (interval tp')"
    and m2: "\<not> b \<Longrightarrow> ins_pos tp' = ts_num_edges ts \<and> outs_pos tp' = ts_num_edges ts \<and>
        snd (interval tp) = ts_sequence_length ts"
    and m3: "snd (interval tp) < ts_sequence_length ts \<Longrightarrow> b"
    and m4: "b \<Longrightarrow> cursor_min ts tp \<Longrightarrow> ins_pos tp < ins_pos tp' \<or> outs_pos tp < outs_pos tp'"
    and h': "\<forall>i. outs_pos tp \<le> i \<and> i < outs_pos tp' \<longrightarrow>
        ts_indexes_edge_removal_order ts ! i
          \<in> set (take (ins_pos tp) (ts_indexes_edge_insertion_order ts))"
  from h(1) have b: "ins_pos tp' \<le> ts_num_edges ts" "outs_pos tp' \<le> ts_num_edges ts"
    by (simp_all add: cursor_inv_def)
  from m1 have i1: "b \<longrightarrow> fst (interval tp') < snd (interval tp')" by blast
  from m2 have i2: "\<not> b \<longrightarrow> ins_pos tp' = ts_num_edges ts \<and> outs_pos tp' = ts_num_edges ts \<and>
        snd (interval tp) = ts_sequence_length ts" by blast
  from m3 have i3: "snd (interval tp) < ts_sequence_length ts \<longrightarrow> b" by blast
  from m4 have i4: "b \<longrightarrow> cursor_min ts tp \<longrightarrow>
      ins_pos tp < ins_pos tp' \<or> outs_pos tp < outs_pos tp'" by blast
  have "step_ok ts tp b tp'"
    unfolding step_ok_def by (intro conjI) (fact h b i1 i2 i3 i4 h')+
  with n show ?thesis by blast
qed

lemma upto_append: "i \<le> j \<Longrightarrow> j \<le> k \<Longrightarrow> [i .. j - 1] @ [j .. k - 1] = [i .. k - (1::int)]"
  using upto_split1 [of i j "k - 1"] by (cases "j = k") (auto simp: upto_rec1 [of j j])

lemma traversal:
  assumes wf: "well_formed_edges ts"
  shows "cursor_inv ts tp \<Longrightarrow> cursor_min ts tp \<Longrightarrow>
     (ts_num_edges ts - ins_pos tp) + (ts_num_edges ts - outs_pos tp) < n \<Longrightarrow>
     \<exists>tps. advance_all n tp = Some (Inr tps) \<and>
        tiling (snd (interval tp)) (ts_sequence_length ts) (map interval (butlast tps)) \<and>
        in_positions tps = [int (ins_pos tp) .. int (ts_num_edges ts) - 1] \<and>
        out_positions tps = [int (outs_pos tp) .. int (ts_num_edges ts) - 1]"
proof (induction n arbitrary: tp)
  case 0
  then show ?case by simp
next
  case (Suc n)
  from next_total [OF wf Suc.prems(1)] obtain b tp' where
    n: "TreePosition_next tp = Inr (b, tp')" and ok: "step_ok ts tp b tp'" by blast
  from ok have inv': "cursor_inv ts tp'" and min': "cursor_min ts tp'"
    and ir: "in_range tp' = (int (ins_pos tp), int (ins_pos tp'))"
    and or: "out_range tp' = (int (outs_pos tp), int (outs_pos tp'))"
    and le: "ins_pos tp \<le> ins_pos tp'" "outs_pos tp \<le> outs_pos tp'"
      "ins_pos tp' \<le> ts_num_edges ts" "outs_pos tp' \<le> ts_num_edges ts"
    and iv: "fst (interval tp') = snd (interval tp)"
    by (simp_all add: step_ok_def)
  show ?case
  proof (cases b)
    case False
    with ok have "ins_pos tp' = ts_num_edges ts" "outs_pos tp' = ts_num_edges ts"
      "snd (interval tp) = ts_sequence_length ts"
      by (simp_all add: step_ok_def)
    with n False ir or show ?thesis
      by (simp add: in_positions_def out_positions_def)
  next
    case True
    with ok Suc.prems(2) have "ins_pos tp < ins_pos tp' \<or> outs_pos tp < outs_pos tp'"
      and lt: "fst (interval tp') < snd (interval tp')"
      by (simp_all add: step_ok_def)
    with Suc.prems(3) le
    have "(ts_num_edges ts - ins_pos tp') + (ts_num_edges ts - outs_pos tp') < n"
      by linarith
    from Suc.IH [OF inv' min' this] obtain tps where
      tps: "advance_all n tp' = Some (Inr tps)"
      "tiling (snd (interval tp')) (ts_sequence_length ts) (map interval (butlast tps))"
      "in_positions tps = [int (ins_pos tp') .. int (ts_num_edges ts) - 1]"
      "out_positions tps = [int (outs_pos tp') .. int (ts_num_edges ts) - 1]"
      by blast
    from tps(1) have ne: "tps \<noteq> []" by (cases n) (auto split: sum.splits prod.splits if_splits option.splits)
    have a: "advance_all (Suc n) tp = Some (Inr (tp' # tps))"
      using n True tps(1) by simp
    have t: "tiling (snd (interval tp)) (ts_sequence_length ts) (map interval (butlast (tp' # tps)))"
      using ne tps(2) lt iv by (cases "interval tp'") simp
    have i: "in_positions (tp' # tps) = [int (ins_pos tp) .. int (ts_num_edges ts) - 1]"
      using tps(3) ir le upto_append [of "int (ins_pos tp)" "int (ins_pos tp')" "int (ts_num_edges ts)"]
      by (simp add: in_positions_def)
    have o: "out_positions (tp' # tps) = [int (outs_pos tp) .. int (ts_num_edges ts) - 1]"
      using tps(4) or le upto_append [of "int (outs_pos tp)" "int (outs_pos tp')" "int (ts_num_edges ts)"]
      by (simp add: out_positions_def)
    from a t i o show ?thesis by blast
  qed
qed

lemma upto_map_int: "[int a .. int b - 1] = map int [a..<b]"
proof (induction b)
  case 0
  then show ?case by simp
next
  case (Suc b)
  show ?case
  proof (cases "a \<le> b")
    case True
    with Suc upto_rec2 [of "int a" "int b"] show ?thesis by simp
  next
    case False
    then show ?thesis by simp
  qed
qed

lemma count_list_distinct: "distinct xs \<Longrightarrow> x \<in> set xs \<Longrightarrow> count_list xs x = 1"
  by (induction xs) auto

lemma valid_order_positions:
  assumes "valid_order M order"
  shows "map (\<lambda>i. order ! nat i) [0 .. int M - 1] = order"
proof -
  have "map (\<lambda>i. order ! nat i) [int 0 .. int M - 1] = map ((!) order) [0..<M]"
    unfolding upto_map_int by (simp add: comp_def)
  also from assms have "[0..<M] = [0..<length order]" by (simp add: valid_order_def)
  also have "map ((!) order) [0..<length order] = order" by (rule map_nth)
  finally show ?thesis by simp
qed

lemma valid_order_count:
  assumes "valid_order M order" "e < M"
  shows "count_list order (int e) = 1"
proof -
  from valid_order_onto [OF assms] assms(1) have "int e \<in> set order"
    by (auto simp: valid_order_def in_set_conv_nth)
  with assms(1) show ?thesis by (simp add: valid_order_def count_list_distinct)
qed

lemma tiling_le: "tiling a b ivs \<Longrightarrow> a \<le> b"
  by (induction a b ivs rule: tiling.induct) auto

lemma tiling_ends:
  "tiling a b ivs \<Longrightarrow> a < b \<Longrightarrow> ivs \<noteq> [] \<and> fst (hd ivs) = a \<and> snd (last ivs) = b"
proof (induction a b ivs rule: tiling.induct)
  case (1 a b)
  then show ?case by simp
next
  case (2 a b l r ivs)
  show ?case
  proof (cases ivs)
    case Nil
    with 2 show ?thesis by simp
  next
    case (Cons iv ivs')
    with 2 have "r \<le> b" "r \<noteq> b" by (cases iv; auto dest: tiling_le)+
    with 2 Cons show ?thesis by auto
  qed
qed

lemma full_traversal:
  assumes wf: "well_formed_edges ts"
  shows "\<exists>tps. advance_all (2 * ts_num_edges ts + 2) (alloc_tree_position ts) = Some (Inr tps) \<and>
     tiling 0 (ts_sequence_length ts) (map interval (butlast tps)) \<and>
     in_positions tps = [0 .. int (ts_num_edges ts) - 1] \<and>
     out_positions tps = [0 .. int (ts_num_edges ts) - 1]"
proof -
  let ?tp = "alloc_tree_position ts" and ?M = "ts_num_edges ts"
  have start: "snd (interval ?tp) = 0" "ins_pos ?tp = 0" "outs_pos ?tp = 0"
    by (simp_all add: alloc_tree_position_def TreePosition_def ins_pos_def outs_pos_def)
  from next_total [OF wf cursor_inv_start [OF wf]] obtain b tp' where
    n: "TreePosition_next ?tp = Inr (b, tp')" and ok: "step_ok ts ?tp b tp'" by blast
  from wf have "0 < ts_sequence_length ts" by (simp add: well_formed_edges_def)
  with ok start have b: b by (simp add: step_ok_def)
  from ok have inv': "cursor_inv ts tp'" and min': "cursor_min ts tp'"
    and ir: "in_range tp' = (0, int (ins_pos tp'))"
    and or: "out_range tp' = (0, int (outs_pos tp'))"
    and le: "ins_pos tp' \<le> ?M" "outs_pos tp' \<le> ?M"
    and iv: "fst (interval tp') = 0"
    by (simp_all add: step_ok_def start)
  from ok b have lt: "fst (interval tp') < snd (interval tp')" by (simp add: step_ok_def)
  have "(?M - ins_pos tp') + (?M - outs_pos tp') < 2 * ?M + 1" by linarith
  from traversal [OF wf inv' min' this] obtain tps where
    tps: "advance_all (2 * ?M + 1) tp' = Some (Inr tps)"
      "tiling (snd (interval tp')) (ts_sequence_length ts) (map interval (butlast tps))"
      "in_positions tps = [int (ins_pos tp') .. int ?M - 1]"
      "out_positions tps = [int (outs_pos tp') .. int ?M - 1]"
    by blast
  from tps(1) have ne: "tps \<noteq> []"
    by (auto split: sum.splits prod.splits if_splits option.splits)
  have "2 * ?M + 2 = Suc (2 * ?M + 1)" by simp
  then have a: "advance_all (2 * ?M + 2) ?tp = Some (Inr (tp' # tps))"
    using n b tps(1) by simp
  have t: "tiling 0 (ts_sequence_length ts) (map interval (butlast (tp' # tps)))"
    using ne tps(2) lt iv by (cases "interval tp'") simp
  have i: "in_positions (tp' # tps) = [0 .. int ?M - 1]"
    using tps(3) ir le upto_append [of 0 "int (ins_pos tp')" "int ?M"]
    by (simp add: in_positions_def)
  have o: "out_positions (tp' # tps) = [0 .. int ?M - 1]"
    using tps(4) or le upto_append [of 0 "int (outs_pos tp')" "int ?M"]
    by (simp add: out_positions_def)
  from a t i o show ?thesis by blast
qed

text \<open>
  C6: on a well-formed table the traversal ends, and the intervals of the calls that
  return true tile the genome: the first starts at 0, each later one starts where the
  one before ends, none is empty, and the last ends at \<open>sequence_length\<close>.
\<close>

theorem intervals_tile_genome:
  assumes "well_formed_edges ts"
  shows "\<exists>tps. advance_all (2 * ts_num_edges ts + 2) (alloc_tree_position ts) = Some (Inr tps) \<and>
     tiling 0 (ts_sequence_length ts) (map interval (butlast tps)) \<and>
     map interval (butlast tps) \<noteq> [] \<and>
     fst (hd (map interval (butlast tps))) = 0 \<and>
     snd (last (map interval (butlast tps))) = ts_sequence_length ts"
proof -
  from full_traversal [OF assms] obtain tps where
    tps: "advance_all (2 * ts_num_edges ts + 2) (alloc_tree_position ts) = Some (Inr tps)"
      "tiling 0 (ts_sequence_length ts) (map interval (butlast tps))"
    by blast
  from assms have "0 < ts_sequence_length ts" by (simp add: well_formed_edges_def)
  from tiling_ends [OF tps(2) this] tps show ?thesis by blast
qed

text \<open>
  C7: on a well-formed table, over all calls of \<open>next\<close> up to and including the one
  that returns false, every edge index occurs at exactly one position of the
  \<open>in_range\<close> ranges over the insertion order and at exactly one position of the
  \<open>out_range\<close> ranges over the removal order.
\<close>

theorem each_edge_once:
  assumes "well_formed_edges ts" "e < ts_num_edges ts"
  shows "\<exists>tps. advance_all (2 * ts_num_edges ts + 2) (alloc_tree_position ts) = Some (Inr tps) \<and>
     count_list (map (\<lambda>i. ts_indexes_edge_insertion_order ts ! nat i) (in_positions tps)) (int e) = 1 \<and>
     count_list (map (\<lambda>i. ts_indexes_edge_removal_order ts ! nat i) (out_positions tps)) (int e) = 1"
proof -
  from full_traversal [OF assms(1)] obtain tps where
    tps: "advance_all (2 * ts_num_edges ts + 2) (alloc_tree_position ts) = Some (Inr tps)"
      "in_positions tps = [0 .. int (ts_num_edges ts) - 1]"
      "out_positions tps = [0 .. int (ts_num_edges ts) - 1]"
    by blast
  from assms have v: "valid_order (ts_num_edges ts) (ts_indexes_edge_insertion_order ts)"
    "valid_order (ts_num_edges ts) (ts_indexes_edge_removal_order ts)"
    by (simp_all add: well_formed_edges_def)
  from tps v assms(2) show ?thesis
    by (simp add: valid_order_positions valid_order_count)
qed

theorem intervals_tile_genome_witness:
  "well_formed_edges three_children_table \<and>
   advance_all 8 (alloc_tree_position three_children_table) \<noteq> None \<and>
   map_option (map_sum id (\<lambda>tps. map interval (butlast tps)))
     (advance_all 8 (alloc_tree_position three_children_table))
     = Some (Inr [(0, 1), (1, 2), (2, 3)]) \<and>
   tiling 0 3 [(0, 1), (1, 2), (2, 3)]"
proof -
  have wf: "well_formed_edges three_children_table" by code_simp
  have ev: "map_option (map_sum id (\<lambda>tps. map interval (butlast tps)))
     (advance_all 8 (alloc_tree_position three_children_table))
     = Some (Inr [(0, 1), (1, 2), (2, 3)])" by code_simp
  from intervals_tile_genome [OF wf] obtain tps where
    tps: "advance_all 8 (alloc_tree_position three_children_table) = Some (Inr tps)"
      "tiling 0 3 (map interval (butlast tps))"
    by (auto simp: three_children_table_def)
  from tps ev have "map interval (butlast tps) = [(0, 1), (1, 2), (2, 3)]" by simp
  with tps wf ev show ?thesis by simp
qed

theorem each_edge_once_witness:
  "well_formed_edges three_children_table \<and> (1::nat) < ts_num_edges three_children_table \<and>
   map_option (map_sum id in_positions)
     (advance_all 8 (alloc_tree_position three_children_table)) = Some (Inr [0, 1, 2]) \<and>
   map_option (map_sum id out_positions)
     (advance_all 8 (alloc_tree_position three_children_table)) = Some (Inr [0, 1, 2]) \<and>
   count_list (map (\<lambda>i. ts_indexes_edge_insertion_order three_children_table ! nat i) [0, 1, 2]) 1 = 1 \<and>
   count_list (map (\<lambda>i. ts_indexes_edge_removal_order three_children_table ! nat i) [0, 1, 2]) 1 = 1"
proof -
  have wf: "well_formed_edges three_children_table" by code_simp
  have e: "(1::nat) < ts_num_edges three_children_table" by (simp add: three_children_table_def)
  have ev: "map_option (map_sum id in_positions)
     (advance_all 8 (alloc_tree_position three_children_table)) = Some (Inr [0, 1, 2])"
    "map_option (map_sum id out_positions)
     (advance_all 8 (alloc_tree_position three_children_table)) = Some (Inr [0, 1, 2])"
    by code_simp+
  from each_edge_once [OF wf e] obtain tps where
    tps: "advance_all 8 (alloc_tree_position three_children_table) = Some (Inr tps)"
     "count_list (map (\<lambda>i. ts_indexes_edge_insertion_order three_children_table ! nat i) (in_positions tps)) 1 = 1"
     "count_list (map (\<lambda>i. ts_indexes_edge_removal_order three_children_table ! nat i) (out_positions tps)) 1 = 1"
    by (auto simp: three_children_table_def)
  from tps(1) ev have "in_positions tps = [0, 1, 2]" "out_positions tps = [0, 1, 2]" by simp_all
  with tps wf e ev show ?thesis by simp
qed

section \<open>The accumulator's arrays\<close>

lemma count_list_update_nat:
  "p < length xs \<Longrightarrow>
     count_list (xs[p := v]) b + (if xs ! p = b then 1 else 0) =
       count_list xs b + (if v = b then 1 else 0)"
proof (induction xs arbitrary: p)
  case Nil
  then show ?case by simp
next
  case (Cons x xs)
  show ?case
  proof (cases p)
    case 0
    then show ?thesis by simp
  next
    case (Suc q)
    with Cons.prems have "q < length xs" by simp
    from Cons.IH [OF this] Suc show ?thesis by (auto split: if_splits)
  qed
qed

lemma count_list_update:
  assumes "p < length xs"
  shows "int (count_list (xs[p := v]) b) =
       int (count_list xs b) - (if xs ! p = b then 1 else 0) + (if v = b then 1 else 0)"
  using count_list_update_nat [OF assms, of v b] by (auto split: if_splits)

lemma hist_after_remove:
  fixes h :: "int list"
  assumes "0 < a" "a < int N" "length h = N" "0 < b" "b < N"
  shows "(if a - 1 = 0 then h[nat a := h ! nat a - 1]
          else (h[nat a := h ! nat a - 1])[nat (a - 1) := h ! nat (a - 1) + 1]) ! b
         = h ! b - (if a = int b then 1 else 0) + (if a - 1 = int b then 1 else 0)"
proof -
  define n where "n = nat a"
  with assms have a: "a = int n" and n: "0 < n" "n < N" by simp_all
  have m: "nat (int n - 1) = n - 1" by simp
  from n have d: "n - 1 \<noteq> n" by simp
  show ?thesis
    unfolding a using n assms(3-5) d
    by (auto simp: nth_list_update m nat_diff_distrib)
qed

lemma hist_after_insert:
  fixes h :: "int list"
  assumes "0 \<le> a" "a + 1 < int N" "length h = N" "0 < b" "b < N"
  shows "(if a = 0 then h[nat (a + 1) := h ! nat (a + 1) + 1]
          else (h[nat a := h ! nat a - 1])[nat (a + 1) := h ! nat (a + 1) + 1]) ! b
         = h ! b - (if a = int b then 1 else 0) + (if a + 1 = int b then 1 else 0)"
proof -
  define n where "n = nat a"
  with assms have a: "a = int n" and n: "Suc n < N" by simp_all
  have m: "nat (int n + 1) = Suc n" by simp
  show ?thesis
    unfolding a using n assms(3-5)
    by (auto simp: nth_list_update m)
qed

lemma hist_zero_after_remove:
  fixes h :: "int list"
  assumes "0 < a"
  shows "(if a - 1 = 0 then h[nat a := h ! nat a - 1]
          else (h[nat a := h ! nat a - 1])[nat (a - 1) := h ! nat (a - 1) + 1]) ! 0 = h ! 0"
  using assms by auto

lemma hist_zero_after_insert:
  fixes h :: "int list"
  assumes "0 \<le> a"
  shows "(if a = 0 then h[nat (a + 1) := h ! nat (a + 1) + 1]
          else (h[nat a := h ! nat a - 1])[nat (a + 1) := h ! nat (a + 1) + 1]) ! 0 = h ! 0"
  using assms by auto

lemma remove_edge_result:
  assumes e: "getitem (edge_removal_order tp) j = Inr e" "0 \<le> e" "e < int (length ep)"
      "length ec = length ep"
    and p: "ep ! nat e = p" "0 \<le> p" "p < int N"
    and c: "0 \<le> ec ! nat e" "ec ! nat e < int N"
    and len: "length (num_children s) = N" "length (nodes_with_arity s) = N" "length nt = N"
    and a: "num_children s ! nat p = a" "0 < a" "a < int N"
  shows "\<exists>s'. remove_edge tp nt ep ec j s = Inr s' \<and>
     num_children s' = (num_children s)[nat p := a - 1] \<and>
     nodes_with_arity s' =
       (if a - 1 = 0 then (nodes_with_arity s)[nat a := nodes_with_arity s ! nat a - 1]
        else ((nodes_with_arity s)[nat a := nodes_with_arity s ! nat a - 1])
               [nat (a - 1) := nodes_with_arity s ! nat (a - 1) + 1])"
proof -
  from a have ne: "nat (a - 1) \<noteq> nat a" by simp
  show ?thesis
    using assms ne by (simp add: remove_edge_def Let_def)
qed

lemma insert_edge_result:
  assumes e: "getitem (edge_insertion_order tp) j = Inr e" "0 \<le> e" "e < int (length ep)"
      "length ec = length ep"
    and p: "ep ! nat e = p" "0 \<le> p" "p < int N"
    and c: "0 \<le> ec ! nat e" "ec ! nat e < int N"
    and len: "length (num_children s) = N" "length (nodes_with_arity s) = N" "length nt = N"
    and a: "num_children s ! nat p = a" "0 \<le> a" "a < int N"
  shows "if a + 1 < int N
     then \<exists>s'. insert_edge tp nt ep ec j s = Inr s' \<and>
       num_children s' = (num_children s)[nat p := a + 1] \<and>
       nodes_with_arity s' =
         (if a = 0 then (nodes_with_arity s)[nat (a + 1) := nodes_with_arity s ! nat (a + 1) + 1]
          else ((nodes_with_arity s)[nat a := nodes_with_arity s ! nat a - 1])
                 [nat (a + 1) := nodes_with_arity s ! nat (a + 1) + 1])
     else insert_edge tp nt ep ec j s = Inl IndexError"
proof -
  from a have ne: "nat (a + 1) \<noteq> nat a" by simp
  show ?thesis
  proof (cases "a + 1 < int N")
    case True
    with assms ne show ?thesis by (simp add: insert_edge_def Let_def)
  next
    case False
    have oob: "getitem xs (a + 1) = Inl IndexError" if "length xs = N" for xs :: "int list"
      using that a False by (simp add: getitem_def py_index_def)
    have "insert_edge tp nt ep ec j s = Inl IndexError"
    proof (cases "a = 0")
      case True
      with oob [of "nodes_with_arity s"] len
      have "getitem (nodes_with_arity s) 1 = Inl IndexError" by simp
      with True assms show ?thesis by (simp add: insert_edge_def Let_def)
    next
      case False
      with assms oob show ?thesis by (simp add: insert_edge_def Let_def)
    qed
    with False show ?thesis by simp
  qed
qed

section \<open>Well-formed tables and the arity state\<close>

lemma deg_insert:
  assumes "finite A" "e \<notin> A"
  shows "deg ts (insert e A) q = deg ts A q + (if ts_edges_parent ts ! nat e = q then 1 else 0)"
proof (cases "ts_edges_parent ts ! nat e = q")
  case True
  then have "{x \<in> insert e A. ts_edges_parent ts ! nat x = q}
      = insert e {x \<in> A. ts_edges_parent ts ! nat x = q}" by auto
  with assms True show ?thesis by (simp add: deg_def)
next
  case False
  then have "{x \<in> insert e A. ts_edges_parent ts ! nat x = q}
      = {x \<in> A. ts_edges_parent ts ! nat x = q}" by auto
  with False show ?thesis by (simp add: deg_def)
qed

lemma deg_remove:
  assumes "finite A" "e \<in> A"
  shows "deg ts A q = deg ts (A - {e}) q + (if ts_edges_parent ts ! nat e = q then 1 else 0)"
proof -
  from assms have "insert e (A - {e}) = A" by auto
  with deg_insert [of "A - {e}" e ts q] assms show ?thesis by simp
qed

lemma wf_node:
  assumes "well_formed ts" "e < ts_num_edges ts"
  shows "0 \<le> ts_edges_parent ts ! e" "ts_edges_parent ts ! e < int (ts_num_nodes ts)"
    "0 \<le> ts_edges_child ts ! e" "ts_edges_child ts ! e < int (ts_num_nodes ts)"
    "ts_edges_child ts ! e \<noteq> ts_edges_parent ts ! e"
proof -
  from assms have "0 \<le> ts_edges_parent ts ! e \<and> ts_edges_parent ts ! e < int (ts_num_nodes ts) \<and>
                  0 \<le> ts_edges_child ts ! e \<and> ts_edges_child ts ! e < int (ts_num_nodes ts) \<and>
                  ts_nodes_time ts ! nat (ts_edges_child ts ! e)
                    < ts_nodes_time ts ! nat (ts_edges_parent ts ! e)"
    by (simp add: well_formed_def list_all_length)
  then show "0 \<le> ts_edges_parent ts ! e" "ts_edges_parent ts ! e < int (ts_num_nodes ts)"
    "0 \<le> ts_edges_child ts ! e" "ts_edges_child ts ! e < int (ts_num_nodes ts)"
    "ts_edges_child ts ! e \<noteq> ts_edges_parent ts ! e"
    by auto
qed

lemma remove_step:
  assumes wf: "well_formed ts" and cof: "cursor_of ts tp" and j: "j < ts_num_edges ts"
    and e: "ts_indexes_edge_removal_order ts ! j \<in> A" and fin: "finite A"
    and inv: "acc_inv ts A s"
  shows "\<exists>s'. remove_edge tp (ts_nodes_time ts) (ts_edges_parent ts) (ts_edges_child ts) (int j) s
            = Inr s' \<and>
     acc_inv ts (A - {ts_indexes_edge_removal_order ts ! j}) s'"
proof -
  let ?N = "ts_num_nodes ts" and ?e = "ts_indexes_edge_removal_order ts ! j"
  let ?p = "ts_edges_parent ts ! nat ?e"
  let ?a = "num_children s ! nat ?p"
  let ?nc = "num_children s" and ?h = "nodes_with_arity s"
  from wf have wfe: "well_formed_edges ts" by (simp add: well_formed_def)
  from wf_outs_nth [OF wfe j] have e0: "0 \<le> ?e" "?e < int (ts_num_edges ts)"
    "nat ?e < ts_num_edges ts" by simp_all
  from wf_node [OF wf e0(3)] have p: "0 \<le> ?p" "?p < int ?N"
    and c: "0 \<le> ts_edges_child ts ! nat ?e" "ts_edges_child ts ! nat ?e < int ?N" by simp_all
  then have pN: "nat ?p < ?N" by simp
  from inv have len: "length ?nc = ?N" "length ?h = ?N"
    and nc: "\<forall>p<?N. ?nc ! p = int (deg ts A (int p))"
    and bound: "\<forall>p<?N. ?nc ! p < int ?N"
    and hist: "\<forall>a. 0 < a \<and> a < ?N \<longrightarrow> ?h ! a = int (count_list ?nc (int a))"
    and zero: "0 < ?N \<longrightarrow> ?h ! 0 = 0"
    unfolding acc_inv_def by blast+
  from nc pN p have a_deg: "?a = int (deg ts A ?p)" by simp
  from deg_remove [OF fin e, of ts ?p] have dr: "deg ts A ?p = deg ts (A - {?e}) ?p + 1" by simp
  with a_deg have a_pos: "0 < ?a" by simp
  from bound pN have a_lt: "?a < int ?N" by simp
  from wf cof wfe j e0 have g: "getitem (edge_removal_order tp) (int j) = Inr ?e"
    using wf_lengths [OF wfe] by (simp add: cursor_of_def)
  from wf have lens: "length (ts_edges_child ts) = length (ts_edges_parent ts)"
    "length (ts_nodes_time ts) = ?N" "length (ts_edges_parent ts) = ts_num_edges ts"
    by (simp_all add: well_formed_def)
  from remove_edge_result [OF g e0(1) _ lens(1) refl p c len lens(2) refl a_pos a_lt] e0 lens
  obtain s' where s': "remove_edge tp (ts_nodes_time ts) (ts_edges_parent ts) (ts_edges_child ts) (int j) s = Inr s'"
    and nc': "num_children s' = ?nc[nat ?p := ?a - 1]"
    and h': "nodes_with_arity s' =
       (if ?a - 1 = 0 then ?h[nat ?a := ?h ! nat ?a - 1]
        else (?h[nat ?a := ?h ! nat ?a - 1])[nat (?a - 1) := ?h ! nat (?a - 1) + 1])"
    by auto
  have 1: "length (num_children s') = ?N" "length (nodes_with_arity s') = ?N"
    using len nc' h' by simp_all
  have 2: "num_children s' ! q = int (deg ts (A - {?e}) (int q))" if "q < ?N" for q
  proof (cases "q = nat ?p")
    case True
    with nc' len pN a_deg dr p show ?thesis by simp
  next
    case False
    with p have "?p \<noteq> int q" by auto
    with deg_remove [OF fin e, of ts "int q"] have "deg ts A (int q) = deg ts (A - {?e}) (int q)"
      by simp
    with nc' False that nc show ?thesis by simp
  qed
  have 3: "num_children s' ! q < int ?N" if "q < ?N" for q
  proof (cases "q = nat ?p")
    case True
    with nc' len pN have "num_children s' ! q = ?a - 1" by simp
    with a_lt show ?thesis by simp
  next
    case False
    with nc' have "num_children s' ! q = ?nc ! q" by simp
    with bound that show ?thesis by simp
  qed
  have 4: "nodes_with_arity s' ! b = int (count_list (num_children s') (int b))"
    if "0 < b" "b < ?N" for b
  proof -
    from hist that have hb: "?h ! b = int (count_list ?nc (int b))" by simp
    have cl: "int (count_list (num_children s') (int b)) =
        int (count_list ?nc (int b)) - (if ?a = int b then 1 else 0)
          + (if ?a - 1 = int b then 1 else 0)"
      unfolding nc' using count_list_update [of "nat ?p" ?nc "?a - 1" "int b"] pN len by simp
    have "nodes_with_arity s' ! b =
        ?h ! b - (if ?a = int b then 1 else 0) + (if ?a - 1 = int b then 1 else 0)"
      unfolding h' using hist_after_remove [OF a_pos a_lt len(2) that] .
    with cl hb show ?thesis by simp
  qed
  have 5: "nodes_with_arity s' ! 0 = 0" if "0 < ?N"
    unfolding h' using hist_zero_after_remove [OF a_pos, of ?h] zero that by simp
  from s' 1 2 3 4 5 show ?thesis by (auto simp: acc_inv_def)
qed

lemma insert_step:
  assumes wf: "well_formed ts" and cof: "cursor_of ts tp" and j: "j < ts_num_edges ts"
    and e: "ts_indexes_edge_insertion_order ts ! j \<notin> A" and fin: "finite A"
    and inv: "acc_inv ts A s"
  shows "if deg ts (insert (ts_indexes_edge_insertion_order ts ! j) A)
              (ts_edges_parent ts ! nat (ts_indexes_edge_insertion_order ts ! j)) < ts_num_nodes ts
     then \<exists>s'. insert_edge tp (ts_nodes_time ts) (ts_edges_parent ts) (ts_edges_child ts) (int j) s
            = Inr s' \<and>
          acc_inv ts (insert (ts_indexes_edge_insertion_order ts ! j) A) s'
     else insert_edge tp (ts_nodes_time ts) (ts_edges_parent ts) (ts_edges_child ts) (int j) s
            = Inl IndexError"
proof -
  let ?N = "ts_num_nodes ts" and ?e = "ts_indexes_edge_insertion_order ts ! j"
  let ?p = "ts_edges_parent ts ! nat ?e"
  let ?a = "num_children s ! nat ?p"
  let ?nc = "num_children s" and ?h = "nodes_with_arity s"
  from wf have wfe: "well_formed_edges ts" by (simp add: well_formed_def)
  from wf_ins_nth [OF wfe j] have e0: "0 \<le> ?e" "?e < int (ts_num_edges ts)"
    "nat ?e < ts_num_edges ts" by simp_all
  from wf_node [OF wf e0(3)] have p: "0 \<le> ?p" "?p < int ?N"
    and c: "0 \<le> ts_edges_child ts ! nat ?e" "ts_edges_child ts ! nat ?e < int ?N" by simp_all
  then have pN: "nat ?p < ?N" by simp
  from inv have len: "length ?nc = ?N" "length ?h = ?N"
    and nc: "\<forall>p<?N. ?nc ! p = int (deg ts A (int p))"
    and bound: "\<forall>p<?N. ?nc ! p < int ?N"
    and hist: "\<forall>a. 0 < a \<and> a < ?N \<longrightarrow> ?h ! a = int (count_list ?nc (int a))"
    and zero: "0 < ?N \<longrightarrow> ?h ! 0 = 0"
    unfolding acc_inv_def by blast+
  from nc pN p have a_deg: "?a = int (deg ts A ?p)" by simp
  from deg_insert [OF fin e, of ts ?p] have di: "deg ts (insert ?e A) ?p = deg ts A ?p + 1" by simp
  from a_deg have a_pos: "0 \<le> ?a" by simp
  from bound pN have a_lt: "?a < int ?N" by simp
  from wf cof wfe j e0 have g: "getitem (edge_insertion_order tp) (int j) = Inr ?e"
    using wf_lengths [OF wfe] by (simp add: cursor_of_def)
  from wf have lens: "length (ts_edges_child ts) = length (ts_edges_parent ts)"
    "length (ts_nodes_time ts) = ?N" "length (ts_edges_parent ts) = ts_num_edges ts"
    by (simp_all add: well_formed_def)
  from e0 lens have e1: "?e < int (length (ts_edges_parent ts))" by simp
  note res = insert_edge_result [OF g e0(1) e1 lens(1) refl p c len lens(2) refl a_pos a_lt]
  show ?thesis
  proof (cases "deg ts (insert ?e A) ?p < ?N")
    case False
    with di a_deg have "\<not> ?a + 1 < int ?N" by simp
    with res False show ?thesis by simp
  next
    case True
    with di a_deg have a1: "?a + 1 < int ?N" by simp
    with res obtain s' where
      s': "insert_edge tp (ts_nodes_time ts) (ts_edges_parent ts) (ts_edges_child ts) (int j) s = Inr s'"
      and nc': "num_children s' = ?nc[nat ?p := ?a + 1]"
      and h': "nodes_with_arity s' =
         (if ?a = 0 then ?h[nat (?a + 1) := ?h ! nat (?a + 1) + 1]
          else (?h[nat ?a := ?h ! nat ?a - 1])[nat (?a + 1) := ?h ! nat (?a + 1) + 1])"
      by auto
    have 1: "length (num_children s') = ?N" "length (nodes_with_arity s') = ?N"
      using len nc' h' by simp_all
    have 2: "num_children s' ! q = int (deg ts (insert ?e A) (int q))" if "q < ?N" for q
    proof (cases "q = nat ?p")
      case True
      with nc' len pN a_deg di p show ?thesis by simp
    next
      case False
      with p have "?p \<noteq> int q" by auto
      with deg_insert [OF fin e, of ts "int q"] have "deg ts (insert ?e A) (int q) = deg ts A (int q)"
        by simp
      with nc' False that nc show ?thesis by simp
    qed
    have 3: "num_children s' ! q < int ?N" if "q < ?N" for q
    proof (cases "q = nat ?p")
      case True
      with nc' len pN have "num_children s' ! q = ?a + 1" by simp
      with a1 show ?thesis by simp
    next
      case False
      with nc' have "num_children s' ! q = ?nc ! q" by simp
      with bound that show ?thesis by simp
    qed
    have 4: "nodes_with_arity s' ! b = int (count_list (num_children s') (int b))"
      if "0 < b" "b < ?N" for b
    proof -
      from hist that have hb: "?h ! b = int (count_list ?nc (int b))" by simp
      have cl: "int (count_list (num_children s') (int b)) =
          int (count_list ?nc (int b)) - (if ?a = int b then 1 else 0)
            + (if ?a + 1 = int b then 1 else 0)"
        unfolding nc' using count_list_update [of "nat ?p" ?nc "?a + 1" "int b"] pN len by simp
      have "nodes_with_arity s' ! b =
          ?h ! b - (if ?a = int b then 1 else 0) + (if ?a + 1 = int b then 1 else 0)"
        unfolding h' using hist_after_insert [OF a_pos a1 len(2) that] .
      with cl hb show ?thesis by simp
    qed
    have 5: "nodes_with_arity s' ! 0 = 0" if "0 < ?N"
      unfolding h' using hist_zero_after_insert [OF a_pos, of ?h] zero that by simp
    from s' 1 2 3 4 5 have "\<exists>s'. insert_edge tp (ts_nodes_time ts) (ts_edges_parent ts)
        (ts_edges_child ts) (int j) s = Inr s' \<and> acc_inv ts (insert ?e A) s'"
      by (auto simp: acc_inv_def)
    with True show ?thesis by simp
  qed
qed

lemma deg_mono:
  assumes "finite B" "A \<subseteq> B"
  shows "deg ts A q \<le> deg ts B q"
  unfolding deg_def using assms by (intro card_mono) auto

lemma wf_outs_distinct:
  assumes "well_formed_edges ts" "i < ts_num_edges ts" "i' < ts_num_edges ts"
    "ts_indexes_edge_removal_order ts ! i = ts_indexes_edge_removal_order ts ! i'"
  shows "i = i'"
  using assms by (simp add: well_formed_edges_def valid_order_def nth_eq_iff_index_eq)

lemma wf_ins_distinct:
  assumes "well_formed_edges ts" "i < ts_num_edges ts" "i' < ts_num_edges ts"
    "ts_indexes_edge_insertion_order ts ! i = ts_indexes_edge_insertion_order ts ! i'"
  shows "i = i'"
  using assms by (simp add: well_formed_edges_def valid_order_def nth_eq_iff_index_eq)

lemma remove_edges_steps:
  assumes wf: "well_formed ts" and cof: "cursor_of ts tp"
  shows "finite A \<Longrightarrow> \<forall>i\<in>set ps. i < ts_num_edges ts \<Longrightarrow> distinct ps \<Longrightarrow>
     \<forall>i\<in>set ps. ts_indexes_edge_removal_order ts ! i \<in> A \<Longrightarrow> acc_inv ts A s \<Longrightarrow>
     \<exists>s'. remove_edges tp (ts_nodes_time ts) (ts_edges_parent ts) (ts_edges_child ts)
             (map int ps) s = Inr s' \<and>
          acc_inv ts (A - (\<lambda>i. ts_indexes_edge_removal_order ts ! i) ` set ps) s'"
proof (induction ps arbitrary: A s)
  case Nil
  then show ?case by simp
next
  case (Cons p ps)
  let ?out = "\<lambda>i. ts_indexes_edge_removal_order ts ! i"
  from wf have wfe: "well_formed_edges ts" by (simp add: well_formed_def)
  from Cons.prems have p: "p < ts_num_edges ts" "?out p \<in> A" by simp_all
  from remove_step [OF wf cof p(1) p(2) Cons.prems(1) Cons.prems(5)] obtain s1 where
    s1: "remove_edge tp (ts_nodes_time ts) (ts_edges_parent ts) (ts_edges_child ts) (int p) s = Inr s1"
      "acc_inv ts (A - {?out p}) s1"
    by blast
  have mem: "\<forall>i\<in>set ps. ?out i \<in> A - {?out p}"
  proof
    fix i assume i: "i \<in> set ps"
    with Cons.prems have "i < ts_num_edges ts" "i \<noteq> p" "?out i \<in> A" by auto
    with wf_outs_distinct [OF wfe this(1) p(1)] show "?out i \<in> A - {?out p}" by auto
  qed
  from Cons.prems have "finite (A - {?out p})" "\<forall>i\<in>set ps. i < ts_num_edges ts" "distinct ps"
    by simp_all
  from Cons.IH [OF this mem s1(2)] obtain s' where
    s': "remove_edges tp (ts_nodes_time ts) (ts_edges_parent ts) (ts_edges_child ts) (map int ps) s1
          = Inr s'"
      "acc_inv ts (A - {?out p} - ?out ` set ps) s'"
    by blast
  have "A - {?out p} - ?out ` set ps = A - ?out ` set (p # ps)" by auto
  with s1 s' show ?case by simp
qed

lemma insert_edges_steps:
  assumes wf: "well_formed ts" and cof: "cursor_of ts tp"
  shows "finite A \<Longrightarrow> \<forall>i\<in>set ps. i < ts_num_edges ts \<Longrightarrow> distinct ps \<Longrightarrow>
     \<forall>i\<in>set ps. ts_indexes_edge_insertion_order ts ! i \<notin> A \<Longrightarrow> acc_inv ts A s \<Longrightarrow>
     (\<forall>s'. insert_edges tp (ts_nodes_time ts) (ts_edges_parent ts) (ts_edges_child ts)
             (map int ps) s = Inr s' \<longrightarrow>
          acc_inv ts (A \<union> (\<lambda>i. ts_indexes_edge_insertion_order ts ! i) ` set ps) s') \<and>
     ((\<forall>q. 0 \<le> q \<and> q < int (ts_num_nodes ts) \<longrightarrow>
          deg ts (A \<union> (\<lambda>i. ts_indexes_edge_insertion_order ts ! i) ` set ps) q < ts_num_nodes ts) \<longrightarrow>
      (\<exists>s'. insert_edges tp (ts_nodes_time ts) (ts_edges_parent ts) (ts_edges_child ts)
             (map int ps) s = Inr s'))"
proof (induction ps arbitrary: A s)
  case Nil
  then show ?case by simp
next
  case (Cons p ps)
  let ?in = "\<lambda>i. ts_indexes_edge_insertion_order ts ! i"
  let ?N = "ts_num_nodes ts"
  let ?ins = "\<lambda>js s. insert_edges tp (ts_nodes_time ts) (ts_edges_parent ts) (ts_edges_child ts) js s"
  let ?ins1 = "insert_edge tp (ts_nodes_time ts) (ts_edges_parent ts) (ts_edges_child ts) (int p) s"
  from wf have wfe: "well_formed_edges ts" by (simp add: well_formed_def)
  from Cons.prems have p: "p < ts_num_edges ts" "?in p \<notin> A" by simp_all
  note step = insert_step [OF wf cof p(1) p(2) Cons.prems(1) Cons.prems(5)]
  have eq: "insert (?in p) A \<union> ?in ` set ps = A \<union> ?in ` set (p # ps)" by auto
  have mem: "\<forall>i\<in>set ps. ?in i \<notin> insert (?in p) A"
  proof
    fix i assume i: "i \<in> set ps"
    with Cons.prems have "i < ts_num_edges ts" "i \<noteq> p" "?in i \<notin> A" by auto
    with wf_ins_distinct [OF wfe this(1) p(1)] show "?in i \<notin> insert (?in p) A" by auto
  qed
  from Cons.prems have rest: "finite (insert (?in p) A)" "\<forall>i\<in>set ps. i < ts_num_edges ts"
    "distinct ps" by simp_all
  have part1: "acc_inv ts (A \<union> ?in ` set (p # ps)) s'" if "?ins (map int (p # ps)) s = Inr s'" for s'
  proof -
    from that obtain s1 where s1: "?ins1 = Inr s1" "?ins (map int ps) s1 = Inr s'"
      by (auto split: sum.splits)
    with step have "acc_inv ts (insert (?in p) A) s1" by (auto split: if_splits)
    from Cons.IH [OF rest mem this] s1(2) eq show ?thesis by auto
  qed
  have part2: "\<exists>s'. ?ins (map int (p # ps)) s = Inr s'"
    if bound: "\<forall>q. 0 \<le> q \<and> q < int ?N \<longrightarrow> deg ts (A \<union> ?in ` set (p # ps)) q < ?N"
  proof -
    let ?q = "ts_edges_parent ts ! nat (?in p)"
    from wf_ins_nth [OF wfe p(1)] have "nat (?in p) < ts_num_edges ts" by simp
    from wf_node [OF wf this] have q: "0 \<le> ?q" "?q < int ?N" by simp_all
    have fin: "finite (A \<union> ?in ` set (p # ps))" using Cons.prems(1) by simp
    have "deg ts (insert (?in p) A) ?q \<le> deg ts (A \<union> ?in ` set (p # ps)) ?q"
      by (rule deg_mono [OF fin]) auto
    also from bound q have "\<dots> < ?N" by blast
    finally have "deg ts (insert (?in p) A) ?q < ?N" .
    with step obtain s1 where s1: "?ins1 = Inr s1" "acc_inv ts (insert (?in p) A) s1"
      by (auto split: if_splits)
    from Cons.IH [OF rest mem s1(2)] bound eq obtain s' where "?ins (map int ps) s1 = Inr s'"
      by auto
    with s1 show ?thesis by simp
  qed
  from part1 part2 show ?case by blast
qed

lemma nth_image_range:
  assumes "distinct xs" "a \<le> b" "b \<le> length xs"
  shows "(\<lambda>i. xs ! i) ` set [a..<b] = set (take b xs) - set (take a xs)"
proof -
  have inj: "inj_on ((!) xs) {0..<length xs}"
    using assms(1) by (simp add: inj_on_nth)
  have "{a..<b} = {0..<b} - {0..<a}" by auto
  then have "(!) xs ` {a..<b} = (!) xs ` ({0..<b} - {0..<a})" by simp
  also have "\<dots> = (!) xs ` {0..<b} - (!) xs ` {0..<a}"
    using assms by (intro inj_on_image_set_diff [OF inj]) auto
  also have "\<dots> = set (take b xs) - set (take a xs)"
    using assms by (simp add: nth_image)
  finally show ?thesis by simp
qed

lemma round_sets:
  assumes wf: "well_formed_edges ts" and inv: "cursor_inv ts tp" and ok: "step_ok ts tp b tp'"
  shows "(\<lambda>i. ts_indexes_edge_removal_order ts ! i) ` set [outs_pos tp..<outs_pos tp'] \<subseteq> active ts tp"
    and "active ts tp - (\<lambda>i. ts_indexes_edge_removal_order ts ! i) ` set [outs_pos tp..<outs_pos tp']
         = set (take (ins_pos tp) (ts_indexes_edge_insertion_order ts)) -
           set (take (outs_pos tp') (ts_indexes_edge_removal_order ts))"
    and "(\<lambda>i. ts_indexes_edge_insertion_order ts ! i) ` set [ins_pos tp..<ins_pos tp']
         \<inter> (set (take (ins_pos tp) (ts_indexes_edge_insertion_order ts)) -
           set (take (outs_pos tp') (ts_indexes_edge_removal_order ts))) = {}"
    and "(set (take (ins_pos tp) (ts_indexes_edge_insertion_order ts)) -
           set (take (outs_pos tp') (ts_indexes_edge_removal_order ts)))
         \<union> (\<lambda>i. ts_indexes_edge_insertion_order ts ! i) ` set [ins_pos tp..<ins_pos tp']
         = active ts tp'"
proof -
  let ?ins = "ts_indexes_edge_insertion_order ts" and ?outs = "ts_indexes_edge_removal_order ts"
  let ?j = "ins_pos tp" and ?k = "outs_pos tp" and ?j' = "ins_pos tp'" and ?k' = "outs_pos tp'"
  from wf have d: "distinct ?ins" "distinct ?outs"
    and len: "length ?ins = ts_num_edges ts" "length ?outs = ts_num_edges ts"
    by (simp_all add: well_formed_edges_def valid_order_def)
  from ok have le: "?j \<le> ?j'" "?k \<le> ?k'" "?j' \<le> ts_num_edges ts" "?k' \<le> ts_num_edges ts"
    and rem: "\<forall>i. ?k \<le> i \<and> i < ?k' \<longrightarrow> ?outs ! i \<in> set (take ?j ?ins)"
    by (simp_all add: step_ok_def)
  from inv have sub: "set (take ?k ?outs) \<subseteq> set (take ?j ?ins)"
    by (simp add: cursor_inv_def)
  have R: "(\<lambda>i. ?outs ! i) ` set [?k..<?k'] = set (take ?k' ?outs) - set (take ?k ?outs)"
    using nth_image_range [OF d(2) le(2)] le(4) len by simp
  have I: "(\<lambda>i. ?ins ! i) ` set [?j..<?j'] = set (take ?j' ?ins) - set (take ?j ?ins)"
    using nth_image_range [OF d(1) le(1)] le(3) len by simp
  have tk: "set (take ?k ?outs) \<subseteq> set (take ?k' ?outs)"
    by (rule set_take_subset_set_take [OF le(2)])
  have tj: "set (take ?j ?ins) \<subseteq> set (take ?j' ?ins)"
    by (rule set_take_subset_set_take [OF le(1)])
  have Rj: "set (take ?k' ?outs) - set (take ?k ?outs) \<subseteq> set (take ?j ?ins)"
  proof
    fix x assume "x \<in> set (take ?k' ?outs) - set (take ?k ?outs)"
    with R have "x \<in> (\<lambda>i. ?outs ! i) ` set [?k..<?k']" by simp
    then obtain i where "?k \<le> i" "i < ?k'" "x = ?outs ! i" by auto
    with rem show "x \<in> set (take ?j ?ins)" by blast
  qed
  show "(\<lambda>i. ?outs ! i) ` set [?k..<?k'] \<subseteq> active ts tp"
    unfolding R active_def using Rj by auto
  show "active ts tp - (\<lambda>i. ?outs ! i) ` set [?k..<?k'] = set (take ?j ?ins) - set (take ?k' ?outs)"
    unfolding R active_def using tk by auto
  show "(\<lambda>i. ?ins ! i) ` set [?j..<?j'] \<inter> (set (take ?j ?ins) - set (take ?k' ?outs)) = {}"
    unfolding I by auto
  show "(set (take ?j ?ins) - set (take ?k' ?outs)) \<union> (\<lambda>i. ?ins ! i) ` set [?j..<?j']
         = active ts tp'"
    unfolding I active_def using tj Rj sub by auto
qed

lemma emit_arrays:
  "emit s = Inr s' \<Longrightarrow> num_children s' = num_children s \<and> nodes_with_arity s' = nodes_with_arity s"
  by (auto simp: emit_def ebind_Inr)

lemma acc_inv_cong:
  assumes "acc_inv ts A s" "num_children s' = num_children s"
    "nodes_with_arity s' = nodes_with_arity s"
  shows "acc_inv ts A s'"
  unfolding acc_inv_def assms(2,3) using assms(1) unfolding acc_inv_def .

lemma loop_body_cases:
  assumes "loop_body nt ep ec (tp, s) = Inr (Some (tp', s'))"
  obtains s1 s2 where "TreePosition_next tp = Inr (True, tp')"
    "remove_edges tp' nt ep ec [fst (out_range tp') .. snd (out_range tp') - 1] s = Inr s1"
    "insert_edges tp' nt ep ec [fst (in_range tp') .. snd (in_range tp') - 1] s1 = Inr s2"
    "emit s2 = Inr s'"
proof -
  from assms have "ebind (TreePosition_next tp) (\<lambda>(b, tp1).
     if b then
       ebind (remove_edges tp1 nt ep ec [fst (out_range tp1) .. snd (out_range tp1) - 1] s) (\<lambda>s1.
       ebind (insert_edges tp1 nt ep ec [fst (in_range tp1) .. snd (in_range tp1) - 1] s1) (\<lambda>s2.
       ebind (emit s2) (\<lambda>s3. Inr (Some (tp1, s3)))))
     else Inr None) = Inr (Some (tp', s'))"
    unfolding loop_body_def fst_conv snd_conv .
  then obtain b tp1 where n: "TreePosition_next tp = Inr (b, tp1)"
    and r: "(if b then
       ebind (remove_edges tp1 nt ep ec [fst (out_range tp1) .. snd (out_range tp1) - 1] s) (\<lambda>s1.
       ebind (insert_edges tp1 nt ep ec [fst (in_range tp1) .. snd (in_range tp1) - 1] s1) (\<lambda>s2.
       ebind (emit s2) (\<lambda>s3. Inr (Some (tp1, s3)))))
     else Inr None) = Inr (Some (tp', s'))"
    by (auto simp: ebind_Inr split: prod.splits)
  from r have b: b by (auto split: if_splits)
  with r obtain s1 s2 s3 where
    1: "remove_edges tp1 nt ep ec [fst (out_range tp1) .. snd (out_range tp1) - 1] s = Inr s1"
    and 2: "insert_edges tp1 nt ep ec [fst (in_range tp1) .. snd (in_range tp1) - 1] s1 = Inr s2"
    and 3: "emit s2 = Inr s3" and 4: "(tp', s') = (tp1, s3)"
    by (auto simp: ebind_Inr)
  with n b that show thesis by simp
qed

lemma loop_body_inv:
  assumes wf: "well_formed ts" and cinv: "cursor_inv ts tp"
    and ainv: "acc_inv ts (active ts tp) s"
    and lb: "loop_body (ts_nodes_time ts) (ts_edges_parent ts) (ts_edges_child ts) (tp, s)
               = Inr (Some (tp', s'))"
  shows "cursor_inv ts tp' \<and> acc_inv ts (active ts tp') s'"
proof -
  let ?ins = "ts_indexes_edge_insertion_order ts" and ?outs = "ts_indexes_edge_removal_order ts"
  let ?j = "ins_pos tp" and ?k = "outs_pos tp" and ?j' = "ins_pos tp'" and ?k' = "outs_pos tp'"
  let ?nt = "ts_nodes_time ts" and ?ep = "ts_edges_parent ts" and ?ec = "ts_edges_child ts"
  from wf have wfe: "well_formed_edges ts" by (simp add: well_formed_def)
  from lb obtain s1 s2 where n: "TreePosition_next tp = Inr (True, tp')"
    and r: "remove_edges tp' ?nt ?ep ?ec [fst (out_range tp') .. snd (out_range tp') - 1] s = Inr s1"
    and i: "insert_edges tp' ?nt ?ep ?ec [fst (in_range tp') .. snd (in_range tp') - 1] s1 = Inr s2"
    and e: "emit s2 = Inr s'"
    by (rule loop_body_cases)
  from next_total [OF wfe cinv] n have ok: "step_ok ts tp True tp'" by auto
  then have cinv': "cursor_inv ts tp'"
    and ir: "in_range tp' = (int ?j, int ?j')" and or: "out_range tp' = (int ?k, int ?k')"
    and le: "?j' \<le> ts_num_edges ts" "?k' \<le> ts_num_edges ts"
    by (simp_all add: step_ok_def)
  from cinv' have cof': "cursor_of ts tp'" by (simp add: cursor_inv_def)
  note sets = round_sets [OF wfe cinv ok]
  have fin: "finite (active ts tp)" by (simp add: active_def)
  from r or have r': "remove_edges tp' ?nt ?ep ?ec (map int [?k..<?k']) s = Inr s1"
    by (simp add: upto_map_int)
  from i ir have i': "insert_edges tp' ?nt ?ep ?ec (map int [?j..<?j']) s1 = Inr s2"
    by (simp add: upto_map_int)
  from remove_edges_steps [OF wf cof' fin, of "[?k..<?k']" s] le sets(1) ainv r' sets(2)
  have a1: "acc_inv ts (set (take ?j ?ins) - set (take ?k' ?outs)) s1"
    by auto
  have "acc_inv ts ((set (take ?j ?ins) - set (take ?k' ?outs))
           \<union> (\<lambda>i. ?ins ! i) ` set [?j..<?j']) s2"
    using insert_edges_steps [OF wf cof', of "set (take ?j ?ins) - set (take ?k' ?outs)"
        "[?j..<?j']" s1] le sets(3) a1 i'
    by auto
  with sets(4) have "acc_inv ts (active ts tp') s2" by simp
  with emit_arrays [OF e] have "acc_inv ts (active ts tp') s'" by (auto intro: acc_inv_cong)
  with cinv' show ?thesis by simp
qed

lemma acc_inv_start:
  "acc_inv ts (active ts (alloc_tree_position ts)) (init_state T (ts_num_nodes ts))"
proof -
  have "active ts (alloc_tree_position ts) = {}"
    by (simp add: active_def alloc_tree_position_def TreePosition_def ins_pos_def)
  moreover have "count_list (replicate n (0::int)) (int a) = 0" if "0 < a" for n a
    using that by (induction n) simp_all
  ultimately show ?thesis
    by (simp add: acc_inv_def init_state_def deg_def)
qed

lemma after_rounds_inv:
  assumes wf: "well_formed ts"
  shows "cursor_inv ts tp \<Longrightarrow> acc_inv ts (active ts tp) s \<Longrightarrow>
     after_rounds (ts_nodes_time ts) (ts_edges_parent ts) (ts_edges_child ts) n (tp, s)
       = Some (tp', s') \<Longrightarrow>
     cursor_inv ts tp' \<and> acc_inv ts (active ts tp') s'"
proof (induction n arbitrary: tp s)
  case 0
  then show ?case by simp
next
  case (Suc n)
  from Suc.prems(3) obtain tp1 s1 where
    lb: "loop_body (ts_nodes_time ts) (ts_edges_parent ts) (ts_edges_child ts) (tp, s)
           = Inr (Some (tp1, s1))"
    and rest: "after_rounds (ts_nodes_time ts) (ts_edges_parent ts) (ts_edges_child ts) n (tp1, s1)
           = Some (tp', s')"
    by (auto split: sum.splits option.splits)
  from loop_body_inv [OF wf Suc.prems(1,2) lb]
  have "cursor_inv ts tp1" "acc_inv ts (active ts tp1) s1" by simp_all
  from Suc.IH [OF this rest] show ?case .
qed

lemma local_tree_edges_iff:
  "e \<in> set (local_tree_edges ts x) \<longleftrightarrow>
     e < ts_num_edges ts \<and> ts_edges_left ts ! e \<le> x \<and> x < ts_edges_right ts ! e"
  by (auto simp: local_tree_edges_def)

lemma active_subset_tree:
  assumes wf: "well_formed_edges ts" and inv: "cursor_inv ts tp"
  shows "active ts tp \<subseteq> int ` set (local_tree_edges ts (fst (interval tp)))"
proof
  let ?ins = "ts_indexes_edge_insertion_order ts" and ?outs = "ts_indexes_edge_removal_order ts"
  let ?M = "ts_num_edges ts" and ?xl = "fst (interval tp)"
  fix e assume "e \<in> active ts tp"
  then have e: "e \<in> set (take (ins_pos tp) ?ins)" "e \<notin> set (take (outs_pos tp) ?outs)"
    by (simp_all add: active_def)
  from inv have le: "ins_pos tp \<le> ?M" "outs_pos tp \<le> ?M"
    and b: "\<forall>i<ins_pos tp. ins_key ts i \<le> ?xl"
    and d: "\<forall>i. outs_pos tp \<le> i \<and> i < ?M \<longrightarrow> ?xl < outs_key ts i"
    unfolding cursor_inv_def by blast+
  from e(1) le wf_lengths [OF wf] obtain i where i: "i < ins_pos tp" "e = ?ins ! i"
    by (auto simp: in_set_conv_nth)
  with le have iM: "i < ?M" by simp
  from wf_ins_nth [OF wf iM] i have e0: "0 \<le> e" "nat e < ?M" by simp_all
  from b i have left: "ts_edges_left ts ! nat e \<le> ?xl" by (simp add: ins_key_def)
  from wf have "valid_order ?M ?outs" by (simp add: well_formed_edges_def)
  from valid_order_onto [OF this e0(2)] e0 obtain m where m: "m < ?M" "?outs ! m = e" by auto
  have "outs_pos tp \<le> m"
  proof (rule ccontr)
    assume "\<not> outs_pos tp \<le> m"
    with m wf_lengths [OF wf] le have "e \<in> set (take (outs_pos tp) ?outs)"
      by (auto simp: in_set_conv_nth intro!: exI [of _ m])
    with e(2) show False by simp
  qed
  with d m have "?xl < ts_edges_right ts ! nat e" by (auto simp: outs_key_def)
  with left e0 have "nat e \<in> set (local_tree_edges ts ?xl)"
    by (simp add: local_tree_edges_iff)
  with e0 show "e \<in> int ` set (local_tree_edges ts ?xl)" by force
qed

lemma tree_subset_active:
  assumes wf: "well_formed_edges ts" and inv: "cursor_inv ts tp"
    and lt: "fst (interval tp) < snd (interval tp)"
  shows "int ` set (local_tree_edges ts (fst (interval tp))) \<subseteq> active ts tp"
proof
  let ?ins = "ts_indexes_edge_insertion_order ts" and ?outs = "ts_indexes_edge_removal_order ts"
  let ?M = "ts_num_edges ts" and ?xl = "fst (interval tp)"
  fix e assume "e \<in> int ` set (local_tree_edges ts ?xl)"
  then obtain e' where e': "e = int e'" "e' < ?M" "ts_edges_left ts ! e' \<le> ?xl"
    "?xl < ts_edges_right ts ! e'"
    by (auto simp: local_tree_edges_iff)
  from inv have le: "ins_pos tp \<le> ?M" "outs_pos tp \<le> ?M"
    and c: "\<forall>i. ins_pos tp \<le> i \<and> i < ?M \<longrightarrow> snd (interval tp) \<le> ins_key ts i"
    and f: "\<forall>i<outs_pos tp. outs_key ts i \<le> ?xl"
    unfolding cursor_inv_def by blast+
  from wf have v: "valid_order ?M ?ins" by (simp add: well_formed_edges_def)
  from valid_order_onto [OF v e'(2)] obtain i where i: "i < ?M" "?ins ! i = int e'" by blast
  have "i < ins_pos tp"
  proof (rule ccontr)
    assume "\<not> i < ins_pos tp"
    with c i have "snd (interval tp) \<le> ins_key ts i" by simp
    with i e' lt show False by (simp add: ins_key_def)
  qed
  with i le wf_lengths [OF wf] have 1: "e \<in> set (take (ins_pos tp) ?ins)"
    unfolding e'(1) by (auto simp: in_set_conv_nth intro!: exI [of _ i])
  have 2: "e \<notin> set (take (outs_pos tp) ?outs)"
  proof
    assume "e \<in> set (take (outs_pos tp) ?outs)"
    with le wf_lengths [OF wf] obtain m where m: "m < outs_pos tp" "?outs ! m = e"
      by (auto simp: in_set_conv_nth)
    with f have "outs_key ts m \<le> ?xl" by simp
    with m e' show False by (simp add: outs_key_def)
  qed
  from 1 2 show "e \<in> active ts tp" by (simp add: active_def)
qed

lemma deg_out_degree:
  "deg ts (int ` set (local_tree_edges ts x)) (int n) = out_degree ts x n"
proof -
  let ?L = "local_tree_edges ts x"
  have d: "distinct ?L" by (simp add: local_tree_edges_def)
  have "{e \<in> int ` set ?L. ts_edges_parent ts ! nat e = int n}
      = int ` set (filter (\<lambda>e. ts_edges_parent ts ! e = int n) ?L)"
    by auto
  then have "deg ts (int ` set ?L) (int n)
      = card (int ` set (filter (\<lambda>e. ts_edges_parent ts ! e = int n) ?L))"
    by (simp add: deg_def)
  also have "\<dots> = card (set (filter (\<lambda>e. ts_edges_parent ts ! e = int n) ?L))"
    by (rule card_image) simp
  also have "\<dots> = length (filter (\<lambda>e. ts_edges_parent ts ! e = int n) ?L)"
    using d by (intro distinct_card distinct_filter)
  also have "\<dots> = out_degree ts x n"
    by (simp add: out_degree_def)
  finally show ?thesis .
qed

lemma after_rounds_last:
  "after_rounds nt ep ec (Suc n) st = Some st' \<Longrightarrow>
     \<exists>st1. after_rounds nt ep ec n st = Some st1 \<and> loop_body nt ep ec st1 = Inr (Some st')"
proof (induction n arbitrary: st)
  case 0
  then show ?case by (auto split: sum.splits option.splits)
next
  case (Suc n)
  from Suc.prems obtain st2 where l: "loop_body nt ep ec st = Inr (Some st2)"
    and r: "after_rounds nt ep ec (Suc n) st2 = Some st'"
    by (auto split: sum.splits option.splits)
  from Suc.IH [OF r] obtain st1 where "after_rounds nt ep ec n st2 = Some st1"
    "loop_body nt ep ec st1 = Inr (Some st')" by blast
  with l show ?case by simp
qed

text \<open>
  C3 (amended): on a well-formed table, at every emission point \<open>num_children[n]\<close> is
  the out-degree of node \<open>n\<close> in the local tree at the left end of the current
  interval, and for every arity \<open>a\<close> with \<open>1 \<le> a < num_nodes\<close> the bucket
  \<open>nodes_with_arity[a]\<close> is the number of nodes whose out-degree is \<open>a\<close>. The
  bucket \<open>nodes_with_arity[0]\<close> is never written and stays 0.
\<close>

theorem histogram_counts_positive_arities:
  assumes "well_formed ts"
    and "after_rounds (ts_nodes_time ts) (ts_edges_parent ts) (ts_edges_child ts) (Suc t)
           (alloc_tree_position ts, init_state (ts_num_trees ts) (ts_num_nodes ts)) = Some (tp, s)"
  shows "(\<forall>n<ts_num_nodes ts. num_children s ! n = int (out_degree ts (fst (interval tp)) n)) \<and>
     (\<forall>a. 0 < a \<and> a < ts_num_nodes ts \<longrightarrow>
        nodes_with_arity s ! a = int (count_list (num_children s) (int a))) \<and>
     (0 < ts_num_nodes ts \<longrightarrow> nodes_with_arity s ! 0 = 0)"
proof -
  let ?nt = "ts_nodes_time ts" and ?ep = "ts_edges_parent ts" and ?ec = "ts_edges_child ts"
  from assms(1) have wfe: "well_formed_edges ts" by (simp add: well_formed_def)
  from after_rounds_last [OF assms(2)] obtain tp0 s0 where
    r: "after_rounds ?nt ?ep ?ec t
          (alloc_tree_position ts, init_state (ts_num_trees ts) (ts_num_nodes ts)) = Some (tp0, s0)"
    and l: "loop_body ?nt ?ep ?ec (tp0, s0) = Inr (Some (tp, s))"
    by auto
  from after_rounds_inv [OF assms(1) cursor_inv_start [OF wfe] acc_inv_start r]
  have inv0: "cursor_inv ts tp0" by simp
  from l have n: "TreePosition_next tp0 = Inr (True, tp)" by (rule loop_body_cases)
  with next_total [OF wfe inv0] have "step_ok ts tp0 True tp" by auto
  then have lt: "fst (interval tp) < snd (interval tp)" by (simp add: step_ok_def)
  from after_rounds_inv [OF assms(1) cursor_inv_start [OF wfe] acc_inv_start assms(2)]
  have inv: "cursor_inv ts tp" and acc: "acc_inv ts (active ts tp) s" by simp_all
  from active_subset_tree [OF wfe inv] tree_subset_active [OF wfe inv lt]
  have "active ts tp = int ` set (local_tree_edges ts (fst (interval tp)))" by blast
  with acc have "acc_inv ts (int ` set (local_tree_edges ts (fst (interval tp)))) s" by simp
  then show ?thesis
    unfolding acc_inv_def deg_out_degree by blast
qed

text \<open>
  At the emission point of the single-edge table the leaf node 0 has out-degree 0, and
  \<open>nodes_with_arity[0]\<close> is 0, not 1.
\<close>

theorem histogram_bucket_zero_counterexample:
  "map_option (\<lambda>(tp, s). (nodes_with_arity s ! 0, count_list (num_children s) 0))
     (after_rounds (ts_nodes_time single_edge_table) (ts_edges_parent single_edge_table)
        (ts_edges_child single_edge_table) 1
        (alloc_tree_position single_edge_table, init_state 1 2))
   = Some (0, 1)"
  by code_simp

theorem histogram_counts_positive_arities_witness:
  "well_formed three_children_table \<and>
   map_option (\<lambda>(tp, s). (interval tp, num_children s, nodes_with_arity s))
     (after_rounds (ts_nodes_time three_children_table) (ts_edges_parent three_children_table)
        (ts_edges_child three_children_table) 2
        (alloc_tree_position three_children_table, init_state 3 4))
   = Some ((1, 2), [0, 0, 0, 2], [0, 0, 1, 0]) \<and>
   map (out_degree three_children_table 1) [0, 1, 2, 3] = [0, 0, 0, 2] \<and>
   map (\<lambda>a. int (count_list [0, 0, 0, 2 :: int] (int a))) [1, 2, 3] = [0, 1, 0]"
proof -
  have wf: "well_formed three_children_table" by code_simp
  have ev: "after_rounds (ts_nodes_time three_children_table) (ts_edges_parent three_children_table)
        (ts_edges_child three_children_table) (Suc 1)
        (alloc_tree_position three_children_table,
         init_state (ts_num_trees three_children_table) (ts_num_nodes three_children_table))
     = Some (\<lparr>num_edges = 3, sequence_length = 3, edges_left = [0, 0, 0],
               edges_right = [3, 2, 1], edge_insertion_order = [0, 1, 2],
               edge_removal_order = [2, 1, 0], edge_insertion_index = 0,
               edge_removal_index = 0, interval = (1, 2), in_range = (3, 3),
               out_range = (0, 1)\<rparr>,
             \<lparr>tbl = [3, 2, 0], num_internal_nodes = [1, 1, 0], max_arity = [3, 3, 0],
               num_children = [0, 0, 0, 2], nodes_with_arity = [0, 0, 1, 0],
               current_tbl = 2, tree_index = 2, current_num_internal_nodes = 1,
               current_max_arity = 3\<rparr>)"
    by code_simp
  have n: "ts_num_nodes three_children_table = 4" by (simp add: three_children_table_def)
  from histogram_counts_positive_arities [OF wf ev]
  have "map (out_degree three_children_table 1) [0, 1, 2, 3] = [0, 0, 0, 2]"
    "map (\<lambda>a. int (count_list [0, 0, 0, 2 :: int] (int a))) [1, 2, 3] = [0, 1, 0]"
    unfolding n by (simp_all add: All_less_Suc2 numeral_eq_Suc)
  moreover from ev have "map_option (\<lambda>(tp, s). (interval tp, num_children s, nodes_with_arity s))
     (after_rounds (ts_nodes_time three_children_table) (ts_edges_parent three_children_table)
        (ts_edges_child three_children_table) 2
        (alloc_tree_position three_children_table, init_state 3 4))
   = Some ((1, 2), [0, 0, 0, 2], [0, 0, 1, 0])"
    by (simp add: three_children_table_def numeral_2_eq_2)
  ultimately show ?thesis using wf by simp
qed

section \<open>Array indices in the accumulator loop\<close>

lemma single_parentD:
  assumes "single_parent ts" "e1 < ts_num_edges ts" "e2 < ts_num_edges ts"
    "ts_edges_child ts ! e1 = ts_edges_child ts ! e2"
    "ts_edges_left ts ! e1 \<le> x" "x < ts_edges_right ts ! e1"
    "ts_edges_left ts ! e2 \<le> x" "x < ts_edges_right ts ! e2"
  shows "e1 = e2"
proof (rule ccontr)
  assume "e1 \<noteq> e2"
  with assms(1-4) have "ts_edges_right ts ! e1 \<le> ts_edges_left ts ! e2 \<or>
           ts_edges_right ts ! e2 \<le> ts_edges_left ts ! e1"
    by (simp add: single_parent_def list_all_length)
  with assms(5-8) show False by auto
qed

lemma deg_tree_bound:
  assumes wf: "well_formed ts" and sp: "single_parent ts"
    and sub: "A \<subseteq> int ` set (local_tree_edges ts x)"
    and q: "0 \<le> q" "q < int (ts_num_nodes ts)"
  shows "deg ts A q < ts_num_nodes ts"
proof -
  let ?N = "ts_num_nodes ts"
  let ?S = "{e \<in> A. ts_edges_parent ts ! nat e = q}"
  let ?f = "\<lambda>e. ts_edges_child ts ! nat e"
  have tree: "0 \<le> e \<and> nat e < ts_num_edges ts \<and> ts_edges_left ts ! nat e \<le> x \<and>
      x < ts_edges_right ts ! nat e" if "e \<in> A" for e
    using that sub by (auto simp: local_tree_edges_iff)
  have inj: "inj_on ?f ?S"
  proof (rule inj_onI)
    fix e1 e2 assume e: "e1 \<in> ?S" "e2 \<in> ?S" "?f e1 = ?f e2"
    from e(1,2) tree [of e1] tree [of e2] e(3)
    have "nat e1 = nat e2" by (intro single_parentD [OF sp, of _ _ x]) simp_all
    moreover from e(1,2) tree [of e1] tree [of e2] have "0 \<le> e1" "0 \<le> e2" by simp_all
    ultimately show "e1 = e2" by linarith
  qed
  have img: "?f ` ?S \<subseteq> {0..<int ?N} - {q}"
  proof
    fix c assume "c \<in> ?f ` ?S"
    then obtain e where e: "e \<in> A" "ts_edges_parent ts ! nat e = q" "c = ?f e" by auto
    from tree [OF e(1)] have "nat e < ts_num_edges ts" by simp
    from wf_node [OF wf this] e show "c \<in> {0..<int ?N} - {q}" by simp
  qed
  have "deg ts A q = card (?f ` ?S)"
    unfolding deg_def by (rule card_image [OF inj, symmetric])
  also have "\<dots> \<le> card ({0..<int ?N} - {q})"
    by (rule card_mono [OF _ img]) simp
  also have "\<dots> < ?N"
    using q by (simp add: card_Diff_singleton_if)
  finally show ?thesis .
qed

lemma acc_inv_in_bounds: "acc_inv ts A s \<Longrightarrow> arities_in_bounds (ts_num_nodes ts) s"
  by (auto simp: acc_inv_def arities_in_bounds_def list_all_length)

text \<open>
  C10 (amended): on a well-formed table in which no node is the child of two edges with
  overlapping intervals, every edge event of every round is processed without an
  \<open>IndexError\<close>, and after each event every \<open>num_children[p]\<close> lies in
  \<open>[0, num_nodes)\<close>: after any number \<open>m\<close> of removals of the round, and after all
  removals and any number \<open>m\<close> of insertions. Every index into \<open>nodes_with_arity\<close>
  is a value of \<open>num_children[p]\<close> before or after an event.
\<close>

theorem arities_stay_in_bounds:
  assumes wf: "well_formed ts" and sp: "single_parent ts"
    and r: "after_rounds (ts_nodes_time ts) (ts_edges_parent ts) (ts_edges_child ts) t
           (alloc_tree_position ts, init_state (ts_num_trees ts) (ts_num_nodes ts)) = Some (tp, s)"
    and n: "TreePosition_next tp = Inr (True, tp')"
  shows "(\<exists>s1. remove_edges tp' (ts_nodes_time ts) (ts_edges_parent ts) (ts_edges_child ts)
              (take m [fst (out_range tp') .. snd (out_range tp') - 1]) s = Inr s1 \<and>
            arities_in_bounds (ts_num_nodes ts) s1) \<and>
         (\<exists>s1. remove_edges tp' (ts_nodes_time ts) (ts_edges_parent ts) (ts_edges_child ts)
              [fst (out_range tp') .. snd (out_range tp') - 1] s = Inr s1 \<and>
            (\<exists>s2. insert_edges tp' (ts_nodes_time ts) (ts_edges_parent ts) (ts_edges_child ts)
              (take m [fst (in_range tp') .. snd (in_range tp') - 1]) s1 = Inr s2 \<and>
              arities_in_bounds (ts_num_nodes ts) s2))"
proof -
  let ?ins = "ts_indexes_edge_insertion_order ts" and ?outs = "ts_indexes_edge_removal_order ts"
  let ?j = "ins_pos tp" and ?k = "outs_pos tp" and ?j' = "ins_pos tp'" and ?k' = "outs_pos tp'"
  let ?nt = "ts_nodes_time ts" and ?ep = "ts_edges_parent ts" and ?ec = "ts_edges_child ts"
  let ?A1 = "set (take ?j ?ins) - set (take ?k' ?outs)"
  from wf have wfe: "well_formed_edges ts" by (simp add: well_formed_def)
  from after_rounds_inv [OF wf cursor_inv_start [OF wfe] acc_inv_start r]
  have cinv: "cursor_inv ts tp" and ainv: "acc_inv ts (active ts tp) s" by simp_all
  from next_total [OF wfe cinv] n have ok: "step_ok ts tp True tp'" by auto
  then have cinv': "cursor_inv ts tp'"
    and ir: "in_range tp' = (int ?j, int ?j')" and or: "out_range tp' = (int ?k, int ?k')"
    and le: "?j' \<le> ts_num_edges ts" "?k' \<le> ts_num_edges ts"
    by (simp_all add: step_ok_def)
  from cinv' have cof': "cursor_of ts tp'" by (simp add: cursor_inv_def)
  note sets = round_sets [OF wfe cinv ok]
  have fin: "finite (active ts tp)" by (simp add: active_def)
  have outs_eq: "[fst (out_range tp') .. snd (out_range tp') - 1] = map int [?k..<?k']"
    using or by (simp add: upto_map_int)
  have ins_eq: "[fst (in_range tp') .. snd (in_range tp') - 1] = map int [?j..<?j']"
    using ir by (simp add: upto_map_int)
  have removal: "\<exists>s1. remove_edges tp' ?nt ?ep ?ec (map int ps) s = Inr s1 \<and>
      acc_inv ts (active ts tp - (\<lambda>i. ?outs ! i) ` set ps) s1"
    if "set ps \<subseteq> set [?k..<?k']" "distinct ps" for ps
  proof (rule remove_edges_steps [OF wf cof' fin _ that(2) _ ainv])
    from that(1) le show "\<forall>i\<in>set ps. i < ts_num_edges ts" by auto
    from that(1) sets(1) show "\<forall>i\<in>set ps. ?outs ! i \<in> active ts tp" by auto
  qed
  have part1: "\<exists>s1. remove_edges tp' ?nt ?ep ?ec
        (take m [fst (out_range tp') .. snd (out_range tp') - 1]) s = Inr s1 \<and>
      arities_in_bounds (ts_num_nodes ts) s1"
  proof -
    have "set (take m [?k..<?k']) \<subseteq> set [?k..<?k']" by (rule set_take_subset)
    moreover have "distinct (take m [?k..<?k'])" by simp
    ultimately obtain s1 where
      "remove_edges tp' ?nt ?ep ?ec (map int (take m [?k..<?k'])) s = Inr s1"
      "acc_inv ts (active ts tp - (\<lambda>i. ?outs ! i) ` set (take m [?k..<?k'])) s1"
      using removal by blast
    then show ?thesis
      unfolding outs_eq take_map by (blast intro: acc_inv_in_bounds)
  qed
  from removal [of "[?k..<?k']"] sets(2) obtain s1 where
    s1: "remove_edges tp' ?nt ?ep ?ec (map int [?k..<?k']) s = Inr s1" "acc_inv ts ?A1 s1"
    by auto
  let ?ps = "take m [?j..<?j']"
  have sub_ps: "set ?ps \<subseteq> set [?j..<?j']" by (rule set_take_subset)
  have fin1: "finite ?A1" by simp
  have lt: "\<forall>i\<in>set ?ps. i < ts_num_edges ts" using sub_ps le by auto
  have new: "\<forall>i\<in>set ?ps. ?ins ! i \<notin> ?A1" using sub_ps sets(3) by blast
  have bound: "\<forall>q. 0 \<le> q \<and> q < int (ts_num_nodes ts) \<longrightarrow>
      deg ts (?A1 \<union> (\<lambda>i. ?ins ! i) ` set ?ps) q < ts_num_nodes ts"
  proof (intro allI impI)
    fix q assume q: "0 \<le> q \<and> q < int (ts_num_nodes ts)"
    have "?A1 \<union> (\<lambda>i. ?ins ! i) ` set ?ps \<subseteq> active ts tp'"
      using sub_ps sets(4) by blast
    with active_subset_tree [OF wfe cinv']
    have "?A1 \<union> (\<lambda>i. ?ins ! i) ` set ?ps
        \<subseteq> int ` set (local_tree_edges ts (fst (interval tp')))" by blast
    from deg_tree_bound [OF wf sp this] q
    show "deg ts (?A1 \<union> (\<lambda>i. ?ins ! i) ` set ?ps) q < ts_num_nodes ts" by blast
  qed
  have d: "distinct ?ps" by simp
  from insert_edges_steps [OF wf cof' fin1 lt d new s1(2)] bound
  obtain s2 where s2: "insert_edges tp' ?nt ?ep ?ec (map int ?ps) s1 = Inr s2"
    "acc_inv ts (?A1 \<union> (\<lambda>i. ?ins ! i) ` set ?ps) s2"
    by blast
  have part2: "\<exists>s1. remove_edges tp' ?nt ?ep ?ec
        [fst (out_range tp') .. snd (out_range tp') - 1] s = Inr s1 \<and>
      (\<exists>s2. insert_edges tp' ?nt ?ep ?ec
        (take m [fst (in_range tp') .. snd (in_range tp') - 1]) s1 = Inr s2 \<and>
        arities_in_bounds (ts_num_nodes ts) s2)"
    unfolding outs_eq ins_eq take_map using s1(1) s2 by (blast intro: acc_inv_in_bounds)
  from part1 part2 show ?thesis by (rule conjI)
qed

text \<open>
  Two copies of one edge satisfy every stated invariant; the second insertion raises
  node 1 to two children among two nodes and indexes \<open>nodes_with_arity[2]\<close>.
\<close>

theorem arities_out_of_bounds_counterexample:
  "well_formed duplicate_edge_table \<and>
   map_sum id (\<lambda>(b, tp). (b, in_range tp, out_range tp))
     (TreePosition_next (alloc_tree_position duplicate_edge_table)) = Inr (True, (0, 2), (0, 0)) \<and>
   map_sum id num_children
     (insert_edges (alloc_tree_position duplicate_edge_table) [0, 1] [1, 1] [0, 0] [0]
        (init_state 1 2)) = Inr [0, 1] \<and>
   insert_edges (alloc_tree_position duplicate_edge_table) [0, 1] [1, 1] [0, 0] [0, 1]
        (init_state 1 2) = Inl IndexError \<and>
   compute_per_tree_stats duplicate_edge_table = Inl IndexError"
  by code_simp

theorem arities_stay_in_bounds_witness:
  "well_formed three_children_table \<and> single_parent three_children_table \<and>
   (\<exists>s1. remove_edges
       \<lparr>num_edges = 3, sequence_length = 3, edges_left = [0, 0, 0],
         edges_right = [3, 2, 1], edge_insertion_order = [0, 1, 2],
         edge_removal_order = [2, 1, 0], edge_insertion_index = 0,
         edge_removal_index = 0, interval = (1, 2), in_range = (3, 3),
         out_range = (0, 1)\<rparr>
       [0, 0, 0, 1] [3, 3, 3] [0, 1, 2] [0]
       \<lparr>tbl = [3, 0, 0], num_internal_nodes = [1, 0, 0], max_arity = [3, 0, 0],
         num_children = [0, 0, 0, 3], nodes_with_arity = [0, 0, 0, 1],
         current_tbl = 3, tree_index = 1, current_num_internal_nodes = 1,
         current_max_arity = 3\<rparr> = Inr s1 \<and>
      arities_in_bounds 4 s1)"
proof -
  let ?tp1 = "\<lparr>num_edges = 3, sequence_length = 3, edges_left = [0, 0, 0],
         edges_right = [3, 2, 1], edge_insertion_order = [0, 1, 2],
         edge_removal_order = [2, 1, 0], edge_insertion_index = 0,
         edge_removal_index = 0, interval = (0, 1), in_range = (0, 3),
         out_range = (0, 0)\<rparr>"
  let ?tp2 = "\<lparr>num_edges = 3, sequence_length = 3, edges_left = [0, 0, 0],
         edges_right = [3, 2, 1], edge_insertion_order = [0, 1, 2],
         edge_removal_order = [2, 1, 0], edge_insertion_index = 0,
         edge_removal_index = 0, interval = (1, 2), in_range = (3, 3),
         out_range = (0, 1)\<rparr>"
  let ?s1 = "\<lparr>tbl = [3, 0, 0], num_internal_nodes = [1, 0, 0], max_arity = [3, 0, 0],
         num_children = [0, 0, 0, 3], nodes_with_arity = [0, 0, 0, 1],
         current_tbl = 3, tree_index = 1, current_num_internal_nodes = 1,
         current_max_arity = 3\<rparr>"
  have wf: "well_formed three_children_table" by code_simp
  have sp: "single_parent three_children_table" by code_simp
  have r: "after_rounds (ts_nodes_time three_children_table) (ts_edges_parent three_children_table)
        (ts_edges_child three_children_table) 1
        (alloc_tree_position three_children_table,
         init_state (ts_num_trees three_children_table) (ts_num_nodes three_children_table))
     = Some (?tp1, ?s1)"
    by code_simp
  have n: "TreePosition_next ?tp1 = Inr (True, ?tp2)" by code_simp
  have u: "take 1 [fst (out_range ?tp2) .. snd (out_range ?tp2) - 1] = [0]" by code_simp
  from arities_stay_in_bounds [OF wf sp r n, of 1]
  have "\<exists>s1. remove_edges ?tp2 [0, 0, 0, 1] [3, 3, 3] [0, 1, 2] [0] ?s1 = Inr s1 \<and>
      arities_in_bounds 4 s1"
    unfolding u by (simp add: three_children_table_def)
  with wf sp show ?thesis by blast
qed

end
